theory Spec2Isabelle
  imports Complex_Main "HOL-Library.Word"
begin

section \<open>Values of the platform\<close>

text \<open>
  The scanner view of the application (\<^verbatim>\<open>ScannerView\<close> with the audio utilities
  \<^verbatim>\<open>decode\<close>, \<^verbatim>\<open>encode\<close> and \<^verbatim>\<open>decodeAudioData\<close>) runs in a browser. Its data are
  modelled as follows.
  \<^item> A \<^verbatim>\<open>Uint8Array\<close> is a list of 8-bit words, an \<^verbatim>\<open>Int16Array\<close> a list of 16-bit
    words read through \<open>sint\<close>.
  \<^item> A JavaScript string is a \<open>string\<close>: a list of code units in the range 0..255.
    The binary strings of \<^verbatim>\<open>atob\<close>/\<^verbatim>\<open>btoa\<close> are exactly these; a text with a code unit
    above 255 is outside the model.
  \<^item> A JavaScript number that holds a sample or a time is a \<open>real\<close>. The sample
    arithmetic of the code (a 32-bit float times \<open>2^15\<close>, a 16-bit integer divided by
    \<open>2^15\<close>) is exact in binary floating point, so the reals compute what the code
    computes there; for the playback clock the reals idealise the rounding of additions.
  \<^item> An exception is a value of \<open>js_error\<close>, returned on the left of a sum.
\<close>

type_synonym byte = "8 word"
type_synonym int16 = "16 word"

datatype js_error = InvalidCharacterError | RangeError | NotSupportedError | PlatformError

subsection \<open>The platform's base64 functions\<close>

text \<open>
  \<^verbatim>\<open>btoa\<close> and \<^verbatim>\<open>atob\<close> belong to the browser, not to the repository. They are written
  out after the HTML standard (forgiving-base64 encode and decode) so that the code's
  \<^verbatim>\<open>encode\<close> and \<^verbatim>\<open>decode\<close> can be evaluated.
\<close>

definition b64_alphabet :: string where
  "b64_alphabet = ''ABCDEFGHIJKLMNOPQRSTUVWXYZabcdefghijklmnopqrstuvwxyz0123456789+/''"

definition b64_char :: "nat \<Rightarrow> char" where
  "b64_char n = b64_alphabet ! n"

fun index_of :: "'a \<Rightarrow> 'a list \<Rightarrow> nat option" where
  "index_of x [] = None"
| "index_of x (y # ys) = (if x = y then Some 0 else map_option Suc (index_of x ys))"

definition b64_value :: "char \<Rightarrow> nat option" where
  "b64_value c = index_of c b64_alphabet"

text \<open>Three bytes become four characters; one or two bytes left over are padded with \<open>=\<close>.\<close>

fun b64_encode_units :: "nat list \<Rightarrow> string" where
  "b64_encode_units (a # b # c # rest) =
     b64_char (a div 4) # b64_char ((a mod 4) * 16 + b div 16) #
     b64_char ((b mod 16) * 4 + c div 64) # b64_char (c mod 64) # b64_encode_units rest"
| "b64_encode_units [a, b] =
     [b64_char (a div 4), b64_char ((a mod 4) * 16 + b div 16), b64_char ((b mod 16) * 4), CHR ''='']"
| "b64_encode_units [a] =
     [b64_char (a div 4), b64_char ((a mod 4) * 16), CHR ''='', CHR ''='']"
| "b64_encode_units [] = []"

text \<open>
  \<^verbatim>\<open>btoa\<close> throws only for a code unit above 255, which a \<open>string\<close> cannot hold.
\<close>

definition btoa :: "string \<Rightarrow> string" where
  "btoa s = b64_encode_units (map of_char s)"

definition ascii_whitespace :: "char \<Rightarrow> bool" where
  "ascii_whitespace c = (of_char c \<in> set [9, 10, 12, 13, 32 :: nat])"

text \<open>
  When the length is a multiple of four, one or two \<open>=\<close> at the end are removed.
\<close>

definition strip_padding :: "string \<Rightarrow> string" where
  "strip_padding d =
     (if length d mod 4 = 0 then
        (case rev d of
           p # q # r \<Rightarrow>
             if p = CHR ''='' \<and> q = CHR ''='' then rev r
             else if p = CHR ''='' then rev (q # r) else d
         | _ \<Rightarrow> d)
      else d)"

text \<open>
  Four sextets become three bytes; of two sextets left over the low four bits are
  dropped, of three the low two bits.
\<close>

fun b64_decode_sextets :: "nat list \<Rightarrow> nat list" where
  "b64_decode_sextets (p # q # r # s # rest) =
     (p * 4 + q div 16) # ((q mod 16) * 16 + r div 4) # ((r mod 4) * 64 + s) #
     b64_decode_sextets rest"
| "b64_decode_sextets [p, q, r] = [p * 4 + q div 16, (q mod 16) * 16 + r div 4]"
| "b64_decode_sextets [p, q] = [p * 4 + q div 16]"
| "b64_decode_sextets [p] = []"
| "b64_decode_sextets [] = []"

fun those_values :: "string \<Rightarrow> nat list option" where
  "those_values [] = Some []"
| "those_values (c # cs) =
     (case b64_value c of
        None \<Rightarrow> None
      | Some v \<Rightarrow> map_option ((#) v) (those_values cs))"

definition atob :: "string \<Rightarrow> js_error + string" where
  "atob data =
     (let d = strip_padding (filter (\<lambda>c. \<not> ascii_whitespace c) data) in
      if length d mod 4 = 1 then Inl InvalidCharacterError
      else (case those_values d of
              None \<Rightarrow> Inl InvalidCharacterError
            | Some vs \<Rightarrow> Inr (map char_of (b64_decode_sextets vs))))"

section \<open>The audio utilities of the source\<close>

text \<open>
  \<^verbatim>\<open>function decode(base64)\<close>: \<^verbatim>\<open>atob\<close>, then one byte per code unit
  (\<^verbatim>\<open>bytes[i] = binaryString.charCodeAt(i)\<close>, stored modulo 256).
\<close>

definition decode :: "string \<Rightarrow> js_error + byte list" where
  "decode base64 =
     (case atob base64 of
        Inl e \<Rightarrow> Inl e
      | Inr binaryString \<Rightarrow> Inr (map (\<lambda>c. word_of_nat (of_char c)) binaryString))"

text \<open>
  \<^verbatim>\<open>function encode(bytes)\<close>: one code unit per byte
  (\<^verbatim>\<open>binary += String.fromCharCode(bytes[i])\<close>), then \<^verbatim>\<open>btoa\<close>.
\<close>

definition encode :: "byte list \<Rightarrow> string" where
  "encode bytes = btoa (map (\<lambda>b. char_of (unat b)) bytes)"

subsection \<open>The encoder's output, split into sextets and padding\<close>

text \<open>
  Used to state what \<^verbatim>\<open>btoa\<close> produces: the characters of the sextets below, followed
  by the padding.
\<close>

fun b64_sextets :: "nat list \<Rightarrow> nat list" where
  "b64_sextets (a # b # c # rest) =
     (a div 4) # ((a mod 4) * 16 + b div 16) # ((b mod 16) * 4 + c div 64) # (c mod 64) #
     b64_sextets rest"
| "b64_sextets [a, b] = [a div 4, (a mod 4) * 16 + b div 16, (b mod 16) * 4]"
| "b64_sextets [a] = [a div 4, (a mod 4) * 16]"
| "b64_sextets [] = []"

fun b64_padding :: "nat list \<Rightarrow> string" where
  "b64_padding (a # b # c # rest) = b64_padding rest"
| "b64_padding [a, b] = ''=''"
| "b64_padding [a] = ''==''"
| "b64_padding [] = []"

subsection \<open>Typed arrays and audio buffers\<close>

text \<open>
  Storing a number into an \<^verbatim>\<open>Int16Array\<close> truncates it towards zero and keeps the low
  16 bits (there is no clamping): \<^verbatim>\<open>int16[i] = inputData[i] * 32768\<close>.
\<close>

definition toInt16 :: "real \<Rightarrow> int16" where
  "toInt16 x = word_of_int (if 0 \<le> x then \<lfloor>x\<rfloor> else \<lceil>x\<rceil>)"

text \<open>
  \<^verbatim>\<open>new Uint8Array(int16.buffer)\<close> and \<^verbatim>\<open>new Int16Array(data.buffer)\<close> are views of the
  same memory, low byte first. The second throws a \<^verbatim>\<open>RangeError\<close> when the number of
  bytes is odd.
\<close>

definition int16_bytes :: "int16 \<Rightarrow> byte list" where
  "int16_bytes w = [ucast w, ucast (drop_bit 8 w)]"

definition uint8_view :: "int16 list \<Rightarrow> byte list" where
  "uint8_view ws = concat (map int16_bytes ws)"

fun int16_view :: "byte list \<Rightarrow> js_error + int16 list" where
  "int16_view [] = Inr []"
| "int16_view [b] = Inl RangeError"
| "int16_view (lo # hi # rest) =
     (case int16_view rest of
        Inl e \<Rightarrow> Inl e
      | Inr ws \<Rightarrow> Inr (or (ucast lo) (push_bit 8 (ucast hi)) # ws))"

record audio_buffer =
  numberOfChannels :: nat
  frames :: nat
  sampleRate :: real
  channelData :: "real list list"

text \<open>\<^verbatim>\<open>buffer.duration\<close>: the number of sample frames over the sample rate.\<close>

definition duration :: "audio_buffer \<Rightarrow> real" where
  "duration b = real (frames b) / sampleRate b"

text \<open>
  \<^verbatim>\<open>ctx.createBuffer(numChannels, length, sampleRate)\<close> throws a \<^verbatim>\<open>NotSupportedError\<close>
  for a zero channel count, a zero length or a sample rate outside the supported range;
  of that range only its being positive is modelled (the code passes 24000, which every
  implementation supports). The new buffer is silent.
\<close>

definition createBuffer :: "nat \<Rightarrow> nat \<Rightarrow> real \<Rightarrow> js_error + audio_buffer" where
  "createBuffer numChannels frameCount rate =
     (if numChannels = 0 \<or> frameCount = 0 \<or> rate \<le> 0 then Inl NotSupportedError
      else Inr \<lparr>numberOfChannels = numChannels, frames = frameCount, sampleRate = rate,
                channelData = replicate numChannels (replicate frameCount 0)\<rparr>)"

text \<open>
  \<^verbatim>\<open>async function decodeAudioData(data, ctx, sampleRate, numChannels)\<close>. The frame
  count handed to \<^verbatim>\<open>createBuffer\<close> is converted to an unsigned integer there, and a
  store past the end of a channel is ignored, so each channel gets
  \<open>length dataInt16 div numChannels\<close> samples, each divided by 32768.
\<close>

definition decodeAudioData :: "byte list \<Rightarrow> real \<Rightarrow> nat \<Rightarrow> js_error + audio_buffer" where
  "decodeAudioData data rate numChannels =
     (case int16_view data of
        Inl e \<Rightarrow> Inl e
      | Inr dataInt16 \<Rightarrow>
          (let frameCount = length dataInt16 div numChannels in
           case createBuffer numChannels frameCount rate of
             Inl e \<Rightarrow> Inl e
           | Inr buffer \<Rightarrow>
               Inr (buffer\<lparr>channelData :=
                      map (\<lambda>channel.
                             map (\<lambda>i. real_of_int (sint (dataInt16 ! (i * numChannels + channel))) / 32768)
                               [0..<frameCount])
                        [0..<numChannels]\<rparr>)))"

text \<open>
  The payload that \<^verbatim>\<open>scriptNode.onaudioprocess\<close> builds from one block of microphone
  samples, and the samples that the playback side (\<^verbatim>\<open>decode\<close>, then
  \<^verbatim>\<open>decodeAudioData(..., 24000, 1)\<close>) reads from a payload.
\<close>

definition onaudioprocess_payload :: "real list \<Rightarrow> string" where
  "onaudioprocess_payload inputData =
     encode (uint8_view (map (\<lambda>x. toInt16 (x * 32768)) inputData))"

definition decoded_chunk :: "string \<Rightarrow> js_error + audio_buffer" where
  "decoded_chunk audioOut =
     (case decode audioOut of
        Inl e \<Rightarrow> Inl e
      | Inr bytes \<Rightarrow> decodeAudioData bytes 24000 1)"

definition played_samples :: "string \<Rightarrow> js_error + real list list" where
  "played_samples audioOut = map_sum id channelData (decoded_chunk audioOut)"

section \<open>The scanner view\<close>

subsection \<open>Strings\<close>

text \<open>
  \<^verbatim>\<open>String.prototype.includes\<close> and \<^verbatim>\<open>toLowerCase\<close> on strings of code units up to 255:
  the letters with a lower-case form there are \<open>A\<close>--\<open>Z\<close> and the Latin-1 capitals
  192--222 without the multiplication sign 215; each form lies 32 above.
\<close>

fun starts_with :: "string \<Rightarrow> string \<Rightarrow> bool" where
  "starts_with s [] = True"
| "starts_with [] (k # ks) = False"
| "starts_with (c # cs) (k # ks) = (c = k \<and> starts_with cs ks)"

fun string_includes :: "string \<Rightarrow> string \<Rightarrow> bool" where
  "string_includes [] k = (k = [])"
| "string_includes (c # cs) k = (starts_with (c # cs) k \<or> string_includes cs k)"

definition lower_char :: "char \<Rightarrow> char" where
  "lower_char c =
     (let n = of_char c :: nat in
      if (65 \<le> n \<and> n \<le> 90) \<or> (192 \<le> n \<and> n \<le> 222 \<and> n \<noteq> 215) then char_of (n + 32) else c)"

definition toLowerCase :: "string \<Rightarrow> string" where
  "toLowerCase s = map lower_char s"

subsection \<open>State\<close>

text \<open>
  An \<^verbatim>\<open>AudioBufferSourceNode\<close> that has been started: the time handed to \<^verbatim>\<open>start\<close>, its
  buffer, whether \<^verbatim>\<open>stop()\<close> has been called on it, and whether it has played to its
  end. It can still sound when neither has happened.
\<close>

record source_node =
  startAt :: real
  nodeBuffer :: audio_buffer
  stopped :: bool
  finished :: bool

definition can_fire :: "source_node \<Rightarrow> bool" where
  "can_fire n = (\<not> stopped n \<and> \<not> finished n)"

text \<open>
  An inbound \<^verbatim>\<open>LiveServerMessage\<close>, reduced to the two fields that \<^verbatim>\<open>onmessage\<close> reads:
  \<^verbatim>\<open>serverContent.modelTurn.parts[0].inlineData.data\<close> and
  \<^verbatim>\<open>serverContent.outputTranscription.text\<close>. A model turn without a part list and a
  transcription without a text, on which the property accesses themselves would throw,
  are outside the model.
\<close>

record server_message =
  audioOut :: "string option"
  outputTranscription :: "string option"

text \<open>
  The calls a handler makes on the platform and on its props, in the order made.
  \<^verbatim>\<open>onKeyPrompt()\<close> is \<open>KeyPrompt\<close> where its answer is awaited, and \<open>KeyPromptRetry\<close>
  where the continuation \<^verbatim>\<open>.then(s => s && retry())\<close> is attached to it.
\<close>

datatype action =
    OpenOutputContext nat
  | OpenMicContext nat
  | CloseSession nat
  | StopTrack nat
  | StopSource nat
  | CloseOutputContext nat
  | CloseMicContext nat
  | StartSource nat real
  | SendFrame
  | SendAudio string
  | ReportError
  | KeyPrompt
  | KeyPromptRetry
  | AnalyzeImage
  | SpeakReport

text \<open>
  The React state and the refs of \<^verbatim>\<open>ScannerView\<close>, followed by what the platform holds:
  the source nodes started so far (a node is named by its index), the number of
  registered frame intervals, the number of frames drawn whose send has not happened
  yet, whether the session promise of the latest \<^verbatim>\<open>connect\<close> has resolved, and the audio
  payloads whose \<^verbatim>\<open>sessionPromise.then\<close> callbacks wait for it. \<open>videoRef\<close> is \<open>None\<close> while the \<^verbatim>\<open><video>\<close> element is not mounted,
  \<open>Some None\<close> when it has no \<^verbatim>\<open>srcObject\<close>, and otherwise holds the tracks of its stream.
  The state \<^verbatim>\<open>objectName\<close>, which no handler reads, is left out.
\<close>

record scanner =
  isNeuralSyncEnabled :: bool
  isGamified :: bool
  active :: bool
  loading :: bool
  analysisText :: string
  mouldAlert :: bool
  scanResult :: "nat option"
  sessionRef :: "nat option"
  videoRef :: "nat list option option"
  canvasRef :: bool
  audioCtxRef :: "nat option"
  nextStartTimeRef :: real
  sourcesRef :: "nat list"
  micCtxRef :: "nat option"
  nodes :: "source_node list"
  frameTimers :: nat
  framesInFlight :: nat
  sessionPromiseResolved :: bool
  audioWaiting :: "string list"

text \<open>The view as it is first rendered: nothing started, nothing mounted.\<close>

definition idle_scanner :: "bool \<Rightarrow> bool \<Rightarrow> scanner" where
  "idle_scanner enabled gamified =
     \<lparr>isNeuralSyncEnabled = enabled, isGamified = gamified, active = False, loading = False,
      analysisText = (if gamified then ''Waiting for item...'' else ''Awaiting identification...''),
      mouldAlert = False, scanResult = None, sessionRef = None, videoRef = None,
      canvasRef = False, audioCtxRef = None, nextStartTimeRef = 0, sourcesRef = [],
      micCtxRef = None, nodes = [], frameTimers = 0, framesInFlight = 0,
      sessionPromiseResolved = False, audioWaiting = []\<rparr>"

subsection \<open>Control flow\<close>

text \<open>
  A handler maps the state to the calls it made, the exception that escaped it (if any)
  and the new state. \<open>steps\<close> runs statements in sequence and stops at the first
  exception; \<open>try_catch\<close> is \<^verbatim>\<open>try { ... } catch(e) {}\<close>. A call whose failure the platform
  does not exclude asks the environment (\<open>raises\<close>) whether it throws;
  \<^verbatim>\<open>MediaStreamTrack.stop()\<close> has no failure condition, and \<^verbatim>\<open>stop()\<close> of a source node
  throws only for a node that was never started.
\<close>

type_synonym step = "scanner \<Rightarrow> action list \<times> js_error option \<times> scanner"

definition skip :: step where
  "skip st = ([], None, st)"

definition assign :: "(scanner \<Rightarrow> scanner) \<Rightarrow> step" where
  "assign f st = ([], None, f st)"

definition infallible_call :: "action \<Rightarrow> step" where
  "infallible_call a st = ([a], None, st)"

definition platform_call :: "(action \<Rightarrow> bool) \<Rightarrow> action \<Rightarrow> step" where
  "platform_call raises a st = ([a], (if raises a then Some PlatformError else None), st)"

definition try_catch :: "step \<Rightarrow> step" where
  "try_catch body st = (case body st of (tr, e, st') \<Rightarrow> (tr, None, st'))"

fun steps :: "step list \<Rightarrow> step" where
  "steps [] st = ([], None, st)"
| "steps (f # fs) st =
     (case f st of
        (tr, Some e, st') \<Rightarrow> (tr, Some e, st')
      | (tr, None, st') \<Rightarrow> (case steps fs st' of (tr', e', st'') \<Rightarrow> (tr @ tr', e', st'')))"

subsection \<open>stopScanner\<close>

definition stop_source :: "nat \<Rightarrow> step" where
  "stop_source i st =
     ([StopSource i], None, st\<lparr>nodes := (nodes st)[i := (nodes st ! i)\<lparr>stopped := True\<rparr>]\<rparr>)"

definition stopScanner :: "(action \<Rightarrow> bool) \<Rightarrow> step" where
  "stopScanner raises =
     steps [
       assign (\<lambda>st. st\<lparr>active := False\<rparr>),
       assign (\<lambda>st. st\<lparr>mouldAlert := False\<rparr>),
       (\<lambda>st. case sessionRef st of
                None \<Rightarrow> skip st
              | Some s \<Rightarrow>
                  steps [try_catch (platform_call raises (CloseSession s)),
                         assign (\<lambda>st. st\<lparr>sessionRef := None\<rparr>)] st),
       (\<lambda>st. case videoRef st of
                Some (Some tracks) \<Rightarrow>
                  steps (map (\<lambda>t. infallible_call (StopTrack t)) tracks @
                         [assign (\<lambda>st. st\<lparr>videoRef := Some None\<rparr>)]) st
              | _ \<Rightarrow> skip st),
       (\<lambda>st. steps (map (\<lambda>source. try_catch (stop_source source)) (sourcesRef st)) st),
       assign (\<lambda>st. st\<lparr>sourcesRef := []\<rparr>),
       (\<lambda>st. case audioCtxRef st of
                None \<Rightarrow> skip st
              | Some c \<Rightarrow>
                  steps [try_catch (platform_call raises (CloseOutputContext c)),
                         assign (\<lambda>st. st\<lparr>audioCtxRef := None\<rparr>)] st),
       (\<lambda>st. case micCtxRef st of
                None \<Rightarrow> skip st
              | Some c \<Rightarrow>
                  steps [try_catch (platform_call raises (CloseMicContext c)),
                         assign (\<lambda>st. st\<lparr>micCtxRef := None\<rparr>)] st),
       assign (\<lambda>st. st\<lparr>nextStartTimeRef := 0\<rparr>)]"

subsection \<open>The callbacks of the live session\<close>

text \<open>
  The audio branch of \<^verbatim>\<open>onmessage\<close>. The cursor is raised before the payload is
  decoded, so it stays raised when decoding throws. \<^verbatim>\<open>start(when)\<close> throws a
  \<^verbatim>\<open>RangeError\<close> for a negative time. The \<^verbatim>\<open>await\<close> is on a promise that is already
  settled, so no other handler runs in between. The node is new, so adding it to the set
  appends it.
\<close>

definition handle_audio :: "string \<Rightarrow> real \<Rightarrow> step" where
  "handle_audio a currentTime st =
     (let st1 = st\<lparr>nextStartTimeRef := max (nextStartTimeRef st) currentTime\<rparr> in
      case decoded_chunk a of
        Inl e \<Rightarrow> ([], Some e, st1)
      | Inr buffer \<Rightarrow>
          if nextStartTimeRef st1 < 0 then ([], Some RangeError, st1)
          else
            (let srcNode = length (nodes st1);
                 st2 = st1\<lparr>nodes := nodes st1 @
                          [\<lparr>startAt = nextStartTimeRef st1, nodeBuffer = buffer,
                            stopped = False, finished = False\<rparr>]\<rparr>;
                 st3 = st2\<lparr>nextStartTimeRef := nextStartTimeRef st2 + duration buffer\<rparr>;
                 st4 = st3\<lparr>sourcesRef := sourcesRef st3 @ [srcNode]\<rparr>
             in ([StartSource srcNode (nextStartTimeRef st1)], None, st4)))"

text \<open>The transcription branch of \<^verbatim>\<open>onmessage\<close>.\<close>

definition handle_transcription :: "string \<Rightarrow> step" where
  "handle_transcription transcript st =
     (let text = toLowerCase transcript in
      ([], None,
       st\<lparr>analysisText := text,
          mouldAlert := (string_includes text ''mould'' \<or> string_includes text ''mold'' \<or>
                         string_includes text ''spoil'' \<or> string_includes text ''fuzzy'')\<rparr>))"

text \<open>
  \<^verbatim>\<open>onmessage\<close>, with the reading of \<^verbatim>\<open>audioCtxRef.current.currentTime\<close> as an argument.
  An empty payload is falsy.
\<close>

definition onmessage :: "server_message \<Rightarrow> real \<Rightarrow> step" where
  "onmessage msg currentTime =
     steps [
       (\<lambda>st. case audioOut msg of
                Some a \<Rightarrow>
                  if a \<noteq> [] \<and> audioCtxRef st \<noteq> None then handle_audio a currentTime st
                  else skip st
              | None \<Rightarrow> skip st),
       (\<lambda>st. case outputTranscription msg of
                Some transcript \<Rightarrow> handle_transcription transcript st
              | None \<Rightarrow> skip st)]"

text \<open>
  \<^verbatim>\<open>srcNode.onended\<close>: the platform reports that node \<open>i\<close> is over, and the handler
  deletes it from the set.
\<close>

definition onended :: "nat \<Rightarrow> step" where
  "onended i st =
     ([], None,
      st\<lparr>nodes := (nodes st)[i := (nodes st ! i)\<lparr>finished := True\<rparr>],
         sourcesRef := removeAll i (sourcesRef st)\<rparr>)"

text \<open>
  The callback of \<^verbatim>\<open>setInterval(..., 2000)\<close>: it cancels its interval when the session,
  the video or the canvas is gone, and otherwise draws the frame and starts encoding it.
  When the encoding of a frame is over (\<^verbatim>\<open>toBlob\<close>, then \<^verbatim>\<open>FileReader\<close>), the frame is
  sent if there is a blob and the session is still set. A frame is drawn only while the
  session is set, that is after the session promise has resolved, so its send is not
  deferred.
\<close>

definition ontick :: step where
  "ontick st =
     (if sessionRef st = None \<or> videoRef st = None \<or> \<not> canvasRef st
      then ([], None, st\<lparr>frameTimers := frameTimers st - 1\<rparr>)
      else ([], None, st\<lparr>framesInFlight := framesInFlight st + 1\<rparr>))"

definition onframe_encoded :: "bool \<Rightarrow> step" where
  "onframe_encoded hasBlob st =
     ((if hasBlob \<and> sessionRef st \<noteq> None then [SendFrame] else []), None,
      st\<lparr>framesInFlight := framesInFlight st - 1\<rparr>)"

text \<open>
  \<^verbatim>\<open>scriptNode.onaudioprocess\<close> encodes the block and hands the send to
  \<^verbatim>\<open>sessionPromise.then\<close>, whose callback tests \<^verbatim>\<open>sessionRef.current\<close> when it runs: at
  once when the promise has already resolved, and otherwise when it resolves. A block
  captured between \<^verbatim>\<open>onopen\<close> and the resolution waits until then.
\<close>

definition onaudioprocess :: "real list \<Rightarrow> step" where
  "onaudioprocess inputData st =
     (let base64 = onaudioprocess_payload inputData in
      if sessionPromiseResolved st
      then ((if sessionRef st \<noteq> None then [SendAudio base64] else []), None, st)
      else ([], None, st\<lparr>audioWaiting := audioWaiting st @ [base64]\<rparr>))"

subsection \<open>startScanner\<close>

text \<open>
  \<^verbatim>\<open>startScanner\<close> runs in pieces, with other handlers in between: the part before the
  first \<^verbatim>\<open>await\<close>; the stream of \<^verbatim>\<open>getUserMedia\<close> arriving, upon which \<^verbatim>\<open>connect\<close> is
  called and makes a new, pending session promise; \<^verbatim>\<open>onopen\<close>; the session promise
  resolving; or else the \<^verbatim>\<open>catch\<close> clause, with the message of the exception. When the
  promise resolves, the continuation of \<^verbatim>\<open>await sessionPromise\<close> was registered first and
  sets \<^verbatim>\<open>sessionRef\<close>; the waiting audio callbacks run after it, find the session set and
  send. The callbacks that wait on a promise that is rejected never run.
\<close>

definition start_begin :: "nat \<Rightarrow> step" where
  "start_begin ctx st =
     (if \<not> isNeuralSyncEnabled st then ([ReportError], None, st)
      else ([OpenOutputContext ctx], None,
            st\<lparr>active := True, loading := True, audioCtxRef := Some ctx\<rparr>))"

definition start_media :: "nat list \<Rightarrow> step" where
  "start_media tracks st =
     ([], None,
      (case videoRef st of
         None \<Rightarrow> st
       | Some srcObject \<Rightarrow> st\<lparr>videoRef := Some (Some tracks)\<rparr>)
      \<lparr>sessionPromiseResolved := False, audioWaiting := []\<rparr>)"

definition onopen :: "nat \<Rightarrow> step" where
  "onopen mic st =
     ([OpenMicContext mic], None,
      st\<lparr>loading := False,
         analysisText := (if isGamified st then ''Magic sensor online! Show me your food.''
                          else ''Neural sensor online. Point at food.''),
         frameTimers := frameTimers st + 1,
         micCtxRef := Some mic\<rparr>)"

definition start_session :: "nat \<Rightarrow> step" where
  "start_session s st =
     (map SendAudio (audioWaiting st), None,
      st\<lparr>sessionRef := Some s, sessionPromiseResolved := True, audioWaiting := []\<rparr>)"

definition permission_denied :: "string option \<Rightarrow> bool" where
  "permission_denied message =
     (case message of None \<Rightarrow> False | Some m \<Rightarrow> string_includes m ''PERMISSION_DENIED'')"

definition start_catch :: "(action \<Rightarrow> bool) \<Rightarrow> string option \<Rightarrow> step" where
  "start_catch raises message =
     steps [
       (\<lambda>st. if permission_denied message then infallible_call KeyPromptRetry st
              else skip st),
       stopScanner raises]"

text \<open>
  React mounts the \<^verbatim>\<open><video>\<close> and \<^verbatim>\<open><canvas>\<close> elements when it renders the view with
  \<open>active\<close> set, and unmounts them when it renders it without.
\<close>

definition rendered :: step where
  "rendered st =
     ([], None,
      (if active st
       then st\<lparr>videoRef := (case videoRef st of None \<Rightarrow> Some None | Some v \<Rightarrow> Some v),
               canvasRef := True\<rparr>
       else st\<lparr>videoRef := None, canvasRef := False\<rparr>))"

subsection \<open>The view as an event system\<close>

text \<open>
  Everything that runs in the view is one of these handlers, called by React, by the
  platform or by the live session. An event carries what the environment decides: new
  handles, payloads, clock readings, and for a teardown the calls that throw.
  \<open>EvStop\<close> is \<^verbatim>\<open>stopScanner\<close> called from \<^verbatim>\<open>onerror\<close>, \<^verbatim>\<open>onclose\<close> or the unmount effect;
  \<open>EvNeuralSync\<close> is the prop \<^verbatim>\<open>isNeuralSyncEnabled\<close> changing, with its effect.
\<close>

datatype event =
    EvStart nat
  | EvRendered
  | EvMedia "nat list"
  | EvOpen nat
  | EvSession nat
  | EvStartFailed "action list" "string option"
  | EvMessage server_message real
  | EvEnded nat
  | EvTick
  | EvFrameEncoded bool
  | EvAudioProcess "real list"
  | EvStop "action list"
  | EvNeuralSync bool "action list"

fun handler :: "event \<Rightarrow> step" where
  "handler (EvStart ctx) = start_begin ctx"
| "handler EvRendered = rendered"
| "handler (EvMedia tracks) = start_media tracks"
| "handler (EvOpen mic) = onopen mic"
| "handler (EvSession s) = start_session s"
| "handler (EvStartFailed throwing message) = start_catch (\<lambda>a. a \<in> set throwing) message"
| "handler (EvMessage msg currentTime) = onmessage msg currentTime"
| "handler (EvEnded i) = onended i"
| "handler EvTick = ontick"
| "handler (EvFrameEncoded hasBlob) = onframe_encoded hasBlob"
| "handler (EvAudioProcess inputData) = onaudioprocess inputData"
| "handler (EvStop throwing) = stopScanner (\<lambda>a. a \<in> set throwing)"
| "handler (EvNeuralSync enabled throwing) =
     steps [
       assign (\<lambda>st. st\<lparr>isNeuralSyncEnabled := enabled\<rparr>),
       (\<lambda>st. if \<not> isNeuralSyncEnabled st \<and> active st
              then stopScanner (\<lambda>a. a \<in> set throwing) st else skip st)]"

text \<open>
  A run of events. An exception that escapes a handler is reported by the platform and
  the next event is handled in the state the handler left.
\<close>

fun run :: "event list \<Rightarrow> scanner \<Rightarrow> action list \<times> scanner" where
  "run [] st = ([], st)"
| "run (e # es) st =
     (case handler e st of
        (tr, err, st') \<Rightarrow> (case run es st' of (tr', st'') \<Rightarrow> (tr @ tr', st'')))"

text \<open>The events that tear the session down.\<close>

fun tears_down :: "event \<Rightarrow> bool" where
  "tears_down (EvStop throwing) = True"
| "tears_down (EvStartFailed throwing message) = True"
| "tears_down (EvNeuralSync enabled throwing) = (\<not> enabled)"
| "tears_down e = False"

subsection \<open>Notions used to state the properties\<close>

text \<open>
  What \<^verbatim>\<open>stopScanner\<close> comes to: the calls it makes and the state it leaves.
\<close>

fun stop_all :: "nat list \<Rightarrow> source_node list \<Rightarrow> source_node list" where
  "stop_all [] ns = ns"
| "stop_all (i # is) ns = stop_all is (ns[i := (ns ! i)\<lparr>stopped := True\<rparr>])"

definition teardown_calls :: "scanner \<Rightarrow> action list" where
  "teardown_calls st =
     (case sessionRef st of None \<Rightarrow> [] | Some s \<Rightarrow> [CloseSession s]) @
     (case videoRef st of Some (Some tracks) \<Rightarrow> map StopTrack tracks | _ \<Rightarrow> []) @
     map StopSource (sourcesRef st) @
     (case audioCtxRef st of None \<Rightarrow> [] | Some c \<Rightarrow> [CloseOutputContext c]) @
     (case micCtxRef st of None \<Rightarrow> [] | Some c \<Rightarrow> [CloseMicContext c])"

definition torn_down :: "scanner \<Rightarrow> scanner" where
  "torn_down st =
     st\<lparr>active := False, mouldAlert := False, sessionRef := None,
        videoRef := (case videoRef st of Some (Some tracks) \<Rightarrow> Some None | v \<Rightarrow> v),
        audioCtxRef := None, nextStartTimeRef := 0, sourcesRef := [], micCtxRef := None,
        nodes := stop_all (sourcesRef st) (nodes st)\<rparr>"

text \<open>
  The in-flight set is complete when it holds every node that can still sound, and well
  formed when it names nodes of the store only.
\<close>

definition inflight_complete :: "scanner \<Rightarrow> bool" where
  "inflight_complete st =
     ((\<forall>i < length (nodes st). can_fire (nodes st ! i) \<longrightarrow> i \<in> set (sourcesRef st)) \<and>
      (\<forall>i \<in> set (sourcesRef st). i < length (nodes st)))"

text \<open>
  The teardown order of the specification, from its words: (a) the streaming channel,
  (b) the playback scheduler, (c) the capture devices, (d) the output audio context. A
  list of calls is in that order when the phases of its teardown calls never decrease.
\<close>

fun specified_phase :: "action \<Rightarrow> nat option" where
  "specified_phase (CloseSession s) = Some 0"
| "specified_phase (StopSource i) = Some 1"
| "specified_phase (StopTrack t) = Some 2"
| "specified_phase (CloseMicContext c) = Some 2"
| "specified_phase (CloseOutputContext c) = Some 3"
| "specified_phase a = None"

definition in_specified_order :: "action list \<Rightarrow> bool" where
  "in_specified_order calls = sorted (List.map_filter specified_phase calls)"

text \<open>
  A session in full swing: started, rendered, camera and microphone granted, the channel
  open, and one audio chunk of one sample scheduled at clock time 0.
\<close>

definition scanning_scanner :: scanner where
  "scanning_scanner =
     snd (run [EvStart 1, EvRendered, EvMedia [10, 11], EvOpen 2, EvSession 3,
               EvMessage \<lparr>audioOut = Some ''AIA='', outputTranscription = None\<rparr> 0]
            (idle_scanner True False))"

text \<open>
  The first \<open>n\<close> nodes of the store are silent when none of them can still sound.
\<close>

definition silent_below :: "nat \<Rightarrow> scanner \<Rightarrow> bool" where
  "silent_below n st = (n \<le> length (nodes st) \<and> (\<forall>i < n. \<not> can_fire (nodes st ! i)))"

text \<open>
  The buffer that the audio payload of a message decodes to, when the message has a
  payload that \<^verbatim>\<open>onmessage\<close> takes up and that decodes.
\<close>

definition chunk_of :: "server_message \<Rightarrow> audio_buffer option" where
  "chunk_of msg =
     (case audioOut msg of
        None \<Rightarrow> None
      | Some a \<Rightarrow>
          if a = [] then None
          else (case decoded_chunk a of Inl e \<Rightarrow> None | Inr buffer \<Rightarrow> Some buffer))"

text \<open>The node that \<^verbatim>\<open>onmessage\<close> starts for a buffer at a time.\<close>

definition scheduled :: "real \<Rightarrow> audio_buffer \<Rightarrow> source_node" where
  "scheduled t buffer = \<lparr>startAt = t, nodeBuffer = buffer, stopped = False, finished = False\<rparr>"

text \<open>The trigger words of the specification's classifier.\<close>

definition hazard_keywords :: "string list" where
  "hazard_keywords = [''mould'', ''mold'', ''spoil'', ''fuzzy'']"

text \<open>
  The payload \<open>AIA=\<close> holds the two bytes 0 and 128: one 16-bit sample, 1/24000 of a
  second of audio.
\<close>

definition one_sample :: audio_buffer where
  "one_sample = \<lparr>numberOfChannels = 1, frames = 1, sampleRate = 24000, channelData = [[- 1]]\<rparr>"

definition one_sample_message :: server_message where
  "one_sample_message = \<lparr>audioOut = Some ''AIA='', outputTranscription = None\<rparr>"

text \<open>
  The two transcript events of the specification's example, and the session in full swing
  after one timer tick, with the frame of that tick still being encoded.
\<close>

definition mould_event :: server_message where
  "mould_event = \<lparr>audioOut = None, outputTranscription = Some ''I see some mould here''\<rparr>"

definition fresh_event :: server_message where
  "fresh_event = \<lparr>audioOut = None, outputTranscription = Some ''looks fresh now''\<rparr>"

definition one_frame_pending :: scanner where
  "one_frame_pending = snd (run [EvTick] scanning_scanner)"

subsection \<open>Whole calls of startScanner and captureFullAnalysis, and their retries\<close>
















section \<open>Base64 round trip\<close>

lemma index_of_nth:
  "distinct xs \<Longrightarrow> i < length xs \<Longrightarrow> index_of (xs ! i) xs = Some i"
proof (induction xs arbitrary: i)
  case Nil
  then show ?case by simp
next
  case (Cons y ys)
  show ?case
  proof (cases i)
    case 0
    then show ?thesis by simp
  next
    case (Suc j)
    with Cons.prems have "j < length ys" "ys ! j \<noteq> y" "distinct ys"
      by auto
    with Cons.IH [of j] Suc show ?thesis by simp
  qed
qed

lemma distinct_alphabet: "distinct b64_alphabet"
  by (simp add: b64_alphabet_def)

lemma length_alphabet: "length b64_alphabet = 64"
  by (simp add: b64_alphabet_def)

lemma b64_value_char: "n < 64 \<Longrightarrow> b64_value (b64_char n) = Some n"
  unfolding b64_value_def b64_char_def
  by (rule index_of_nth) (simp_all add: distinct_alphabet length_alphabet)

lemma alphabet_not_pad: "\<forall>c \<in> set b64_alphabet. c \<noteq> CHR ''='' \<and> \<not> ascii_whitespace c"
  by (simp add: b64_alphabet_def ascii_whitespace_def)

lemma b64_char_plain: "n < 64 \<Longrightarrow> b64_char n \<noteq> CHR ''='' \<and> \<not> ascii_whitespace (b64_char n)"
  using alphabet_not_pad by (simp add: b64_char_def length_alphabet)

lemma pad_plain: "\<not> ascii_whitespace CHR ''=''"
  by (simp add: ascii_whitespace_def)

lemma encode_units_split:
  "b64_encode_units xs = map b64_char (b64_sextets xs) @ b64_padding xs"
  by (induction xs rule: b64_encode_units.induct) simp_all

lemma sextets_bound:
  "\<forall>x \<in> set xs. x < 256 \<Longrightarrow> \<forall>s \<in> set (b64_sextets xs). s < 64"
  by (induction xs rule: b64_sextets.induct) auto

lemma decode_sextets_inverse:
  "\<forall>x \<in> set xs. x < 256 \<Longrightarrow> b64_decode_sextets (b64_sextets xs) = xs"
  by (induction xs rule: b64_sextets.induct) auto

lemma length_sextets_mod: "length (b64_sextets xs) mod 4 \<noteq> 1"
  by (induction xs rule: b64_sextets.induct) simp_all

lemma length_encode_units_mod: "length (b64_encode_units xs) mod 4 = 0"
  by (induction xs rule: b64_encode_units.induct) simp_all

lemma padding_cases: "b64_padding xs = [] \<or> b64_padding xs = ''='' \<or> b64_padding xs = ''==''"
  by (induction xs rule: b64_padding.induct) simp_all

lemma those_values_chars:
  "\<forall>s \<in> set ss. s < 64 \<Longrightarrow> those_values (map b64_char ss) = Some ss"
  by (induction ss) (simp_all add: b64_value_char)

lemma filter_plain:
  "\<forall>s \<in> set ss. s < 64 \<Longrightarrow> filter (\<lambda>c. \<not> ascii_whitespace c) (map b64_char ss) = map b64_char ss"
  by (induction ss) (simp_all add: b64_char_plain)

lemma strip_padding_body:
  assumes "\<forall>s \<in> set ss. s < 64"
    and "pad = [] \<or> pad = ''='' \<or> pad = ''==''"
    and "length (map b64_char ss @ pad) mod 4 = 0"
  shows "strip_padding (map b64_char ss @ pad) = map b64_char ss"
proof (cases ss rule: rev_cases)
  case Nil
  with assms show ?thesis by (auto simp: strip_padding_def)
next
  case (snoc ys y)
  with assms(1) have "b64_char y \<noteq> CHR ''=''" by (simp add: b64_char_plain)
  with assms(2,3) snoc show ?thesis
    by (auto simp: strip_padding_def split: list.splits)
qed


lemma atob_encode_units:
  assumes "\<forall>x \<in> set xs. x < 256"
  shows "atob (b64_encode_units xs) = Inr (map char_of xs)"
proof -
  let ?body = "map b64_char (b64_sextets xs)"
  have small: "\<forall>s \<in> set (b64_sextets xs). s < 64"
    using assms by (rule sextets_bound)
  have "filter (\<lambda>c. \<not> ascii_whitespace c) (b64_encode_units xs) = b64_encode_units xs"
    using padding_cases [of xs] small
    by (auto simp: encode_units_split filter_plain pad_plain)
  moreover have "strip_padding (b64_encode_units xs) = ?body"
    unfolding encode_units_split
    using small padding_cases [of xs] length_encode_units_mod [of xs]
    by (intro strip_padding_body) (simp_all add: encode_units_split)
  moreover have "length ?body mod 4 \<noteq> 1"
    using length_sextets_mod [of xs] by simp
  moreover have "those_values ?body = Some (b64_sextets xs)"
    using small by (rule those_values_chars)
  ultimately show ?thesis
    using assms by (simp add: atob_def decode_sextets_inverse)
qed

lemma atob_btoa: "atob (btoa s) = Inr s"
proof -
  have "\<forall>x \<in> set (map of_char s). x < (256::nat)" by simp
  then have "atob (btoa s) = Inr (map char_of (map of_char s :: nat list))"
    unfolding btoa_def by (rule atob_encode_units)
  then show ?thesis by (simp add: comp_def)
qed

lemma bytes_of_units:
  "map (\<lambda>c. word_of_nat (of_char c)) (map (\<lambda>b. char_of (unat b)) bytes) = (bytes :: byte list)"
  (is "?l = _")
proof (rule nth_equalityI)
  show "length ?l = length bytes" by simp
next
  fix i assume "i < length ?l"
  then have i: "i < length bytes" by simp
  have "unat (bytes ! i) < 256"
    using unsigned_less [of "bytes ! i", where 'a = nat] by simp
  then show "?l ! i = bytes ! i"
    using i by simp
qed

lemma bytes_of_units_comp:
  "map ((\<lambda>c. word_of_nat (of_char c)) \<circ> (\<lambda>b. char_of (unat b))) bytes = (bytes :: byte list)"
  using bytes_of_units [of bytes] by simp

text \<open>
  C10: for every byte array, \<^verbatim>\<open>decode\<close> applied to the output of \<^verbatim>\<open>encode\<close> returns
  the array itself and does not throw: the encoder of the outbound capture audio and the
  decoder of the inbound playback audio are mutual inverses.
\<close>

theorem decode_encode: "decode (encode bytes) = Inr bytes"
  by (simp add: decode_def encode_def atob_btoa bytes_of_units_comp)

section \<open>Capture encoding and playback decoding\<close>

lemma int16_of_bytes: "or (ucast (ucast w :: byte)) (push_bit 8 (ucast (ucast (drop_bit 8 w) :: byte))) = (w :: int16)"
  by (rule bit_word_eqI) (auto simp: bit_simps)

lemma int16_view_uint8_view: "int16_view (uint8_view ws) = Inr ws"
  by (induction ws) (simp_all add: uint8_view_def int16_bytes_def int16_of_bytes)

lemma sint_toInt16:
  assumes "- 32768 \<le> y" "y < 32768"
  shows "sint (toInt16 y) = (if 0 \<le> y then \<lfloor>y\<rfloor> else \<lceil>y\<rceil>)"
proof -
  let ?k = "if 0 \<le> y then \<lfloor>y\<rfloor> else \<lceil>y\<rceil>"
  have "- 32768 \<le> ?k" "?k < 32768"
    using assms by (auto simp: le_floor_iff floor_less_iff le_ceiling_iff ceiling_less_iff)
  then have "signed_take_bit 15 ?k = ?k"
    by (intro signed_take_bit_int_eq_self) simp_all
  then show ?thesis
    by (simp add: toInt16_def sint_sbintrunc' del: of_int_floor_cancel)
qed

lemma truncation_error:
  fixes y :: real
  shows "\<bar>y - real_of_int (if 0 \<le> y then \<lfloor>y\<rfloor> else \<lceil>y\<rceil>)\<bar> < 1"
  by (auto; linarith)

lemma sample_round_trip:
  assumes "- 1 \<le> x" "x < 1"
  shows "\<bar>x - real_of_int (sint (toInt16 (x * 32768))) / 32768\<bar> < 1 / 32768"
proof -
  let ?y = "x * 32768"
  have "sint (toInt16 ?y) = (if 0 \<le> ?y then \<lfloor>?y\<rfloor> else \<lceil>?y\<rceil>)"
    using assms by (intro sint_toInt16) simp_all
  moreover have "\<bar>?y - real_of_int (if 0 \<le> ?y then \<lfloor>?y\<rfloor> else \<lceil>?y\<rceil>)\<bar> < 1"
    by (rule truncation_error)
  ultimately have "\<bar>?y - real_of_int (sint (toInt16 ?y))\<bar> < 1"
    by simp
  then have "\<bar>(?y - real_of_int (sint (toInt16 ?y))) / 32768\<bar> < 1 / 32768"
    by (simp del: of_int_floor_cancel)
  then show ?thesis
    by (simp add: diff_divide_distrib)
qed

lemma played_samples_payload:
  assumes "inputData \<noteq> []"
  shows "played_samples (onaudioprocess_payload inputData) =
           Inr [map (\<lambda>x. real_of_int (sint (toInt16 (x * 32768))) / 32768) inputData]"
proof -
  let ?ws = "map (\<lambda>x. toInt16 (x * 32768)) inputData"
  have "decoded_chunk (onaudioprocess_payload inputData) = decodeAudioData (uint8_view ?ws) 24000 1"
    by (simp add: decoded_chunk_def onaudioprocess_payload_def decode_def encode_def atob_btoa
        bytes_of_units_comp)
  moreover have "map (\<lambda>i. real_of_int (sint (?ws ! i)) / 32768) [0..<length inputData]
      = map (\<lambda>x. real_of_int (sint (toInt16 (x * 32768))) / 32768) inputData"
    by (rule nth_equalityI) simp_all
  ultimately show ?thesis
    using assms
    by (simp add: played_samples_def decodeAudioData_def int16_view_uint8_view createBuffer_def)
qed

text \<open>
  Samples in \<open>[-1, 1)\<close> come back within one quantisation step.
\<close>

theorem capture_round_trip_below_one:
  assumes "inputData \<noteq> []" and "\<forall>x \<in> set inputData. - 1 \<le> x \<and> x < 1"
  shows "\<exists>out. played_samples (onaudioprocess_payload inputData) = Inr [out] \<and>
           length out = length inputData \<and>
           (\<forall>i < length inputData. \<bar>inputData ! i - out ! i\<bar> < 1 / 32768)"
proof -
  let ?out = "map (\<lambda>x. real_of_int (sint (toInt16 (x * 32768))) / 32768) inputData"
  have "\<bar>inputData ! i - ?out ! i\<bar> < 1 / 32768" if "i < length inputData" for i
  proof -
    from that assms(2) have "- 1 \<le> inputData ! i" "inputData ! i < 1"
      by simp_all
    then have "\<bar>inputData ! i - real_of_int (sint (toInt16 (inputData ! i * 32768))) / 32768\<bar>
        < 1 / 32768"
      by (rule sample_round_trip)
    with that show ?thesis by simp
  qed
  moreover have "played_samples (onaudioprocess_payload inputData) = Inr [?out]"
    using assms(1) by (rule played_samples_payload)
  ultimately show ?thesis by simp
qed

text \<open>
  C7: a full-scale sample 1.0 is a value in \<open>[-1, 1]\<close>. The capture side stores
  \<open>1.0 * 32768 = 32768\<close> into the \<^verbatim>\<open>Int16Array\<close>, where it wraps to \<open>-32768\<close>; the
  playback side reads \<open>-1.0\<close>. The difference is 2, not at most \<open>1/32768\<close>.
\<close>

theorem capture_round_trip_full_scale:
  "played_samples (onaudioprocess_payload [1]) = Inr [[- 1]]"
  by (simp add: played_samples_payload toInt16_def)

theorem capture_round_trip_below_one_witness:
  "played_samples (onaudioprocess_payload [1 / 2, - 1]) = Inr [[1 / 2, - 1]]"
  using capture_round_trip_below_one [of "[1 / 2, - 1]"]
  by (simp add: played_samples_payload toInt16_def)

section \<open>Teardown\<close>

lemma steps_stop_sources:
  "steps (map (\<lambda>source. try_catch (stop_source source)) is) st =
     (map StopSource is, None, st\<lparr>nodes := stop_all is (nodes st)\<rparr>)"
  by (induction "is" arbitrary: st) (simp_all add: try_catch_def stop_source_def)

lemma steps_stop_tracks:
  "steps (map (\<lambda>t. infallible_call (StopTrack t)) ts @ [assign f]) st =
     (map StopTrack ts, None, f st)"
  by (induction ts arbitrary: st) (simp_all add: infallible_call_def assign_def)

lemma stopScanner_eq:
  "stopScanner raises st = (teardown_calls st, None, torn_down st)"
  by (cases "sessionRef st"; cases "videoRef st"; cases "audioCtxRef st"; cases "micCtxRef st")
     (auto simp: stopScanner_def teardown_calls_def torn_down_def steps_stop_sources
        steps_stop_tracks assign_def skip_def try_catch_def platform_call_def
        split: option.splits)

lemma decoded_AIA: "decoded_chunk ''AIA='' = Inr \<lparr>numberOfChannels = 1, frames = 1, sampleRate = 24000, channelData = [[- 1]]\<rparr>"
  by (simp add: decoded_chunk_def decode_def atob_def strip_padding_def ascii_whitespace_def
      b64_value_def b64_alphabet_def decodeAudioData_def createBuffer_def)

lemma scanning_scanner_eq:
  "scanning_scanner =
     \<lparr>isNeuralSyncEnabled = True, isGamified = False, active = True, loading = False,
      analysisText = ''Neural sensor online. Point at food.'', mouldAlert = False,
      scanResult = None, sessionRef = Some 3, videoRef = Some (Some [10, 11]),
      canvasRef = True, audioCtxRef = Some 1, nextStartTimeRef = 1 / 24000,
      sourcesRef = [0], micCtxRef = Some 2,
      nodes = [\<lparr>startAt = 0,
                nodeBuffer = \<lparr>numberOfChannels = 1, frames = 1, sampleRate = 24000,
                              channelData = [[- 1]]\<rparr>,
                stopped = False, finished = False\<rparr>],
      frameTimers = 1, framesInFlight = 0, sessionPromiseResolved = True,
      audioWaiting = []\<rparr>"
  by (simp add: scanning_scanner_def idle_scanner_def start_begin_def rendered_def
      start_media_def onopen_def start_session_def onmessage_def handle_audio_def
      decoded_AIA duration_def skip_def)


lemma length_stop_all [simp]: "length (stop_all is ns) = length ns"
  by (induction "is" arbitrary: ns) simp_all

lemma stopped_stop_all:
  "j < length ns \<Longrightarrow> stopped (stop_all is ns ! j) = (stopped (ns ! j) \<or> j \<in> set is)"
proof (induction "is" arbitrary: ns)
  case Nil
  then show ?case by simp
next
  case (Cons a "is")
  let ?ns = "ns[a := (ns ! a)\<lparr>stopped := True\<rparr>]"
  from Cons.prems have "stopped (?ns ! j) = (stopped (ns ! j) \<or> j = a)"
    by (cases "j = a") simp_all
  moreover from Cons.prems have "j < length ?ns" by simp
  ultimately show ?case
    using Cons.IH [of ?ns] by auto
qed

lemma finished_stop_all:
  "j < length ns \<Longrightarrow> finished (stop_all is ns ! j) = finished (ns ! j)"
proof (induction "is" arbitrary: ns)
  case Nil
  then show ?case by simp
next
  case (Cons a "is")
  let ?ns = "ns[a := (ns ! a)\<lparr>stopped := True\<rparr>]"
  from Cons.prems have "finished (?ns ! j) = finished (ns ! j)"
    by (cases "j = a") simp_all
  moreover from Cons.prems have "j < length ?ns" by simp
  ultimately show ?case
    using Cons.IH [of ?ns] by simp
qed

lemma inflight_torn_down:
  assumes "inflight_complete st"
  shows "inflight_complete (torn_down st)" and "\<forall>n \<in> set (nodes (torn_down st)). \<not> can_fire n"
proof -
  have quiet: "\<not> can_fire (nodes (torn_down st) ! i)" if "i < length (nodes st)" for i
    using that assms
    by (auto simp: torn_down_def can_fire_def inflight_complete_def stopped_stop_all
        finished_stop_all)
  then show "inflight_complete (torn_down st)"
    by (simp add: inflight_complete_def) (simp add: torn_down_def)
  show "\<forall>n \<in> set (nodes (torn_down st)). \<not> can_fire n"
    using quiet by (auto simp: in_set_conv_nth) (simp add: torn_down_def)
qed

lemma inflight_handle_audio:
  assumes "inflight_complete st"
  shows "inflight_complete (snd (snd (handle_audio a t st)))"
  using assms
  by (auto simp: handle_audio_def inflight_complete_def Let_def nth_append less_Suc_eq
      split: sum.splits)

lemma steps_preserves:
  assumes "\<And>f s. f \<in> set fs \<Longrightarrow> P s \<Longrightarrow> P (snd (snd (f s)))" and "P st"
  shows "P (snd (snd (steps fs st)))"
  using assms
proof (induction fs arbitrary: st)
  case Nil
  then show ?case by simp
next
  case (Cons f fs)
  obtain tr e st' where f: "f st = (tr, e, st')"
    by (cases "f st") auto
  with Cons.prems have st': "P st'"
    by (metis list.set_intros(1) snd_conv)
  show ?case
  proof (cases e)
    case None
    have "P (snd (snd (steps fs st')))"
      using Cons.prems(1) st' by (intro Cons.IH) simp_all
    with f None show ?thesis
      by (cases "steps fs st'") simp
  next
    case (Some err)
    with f st' show ?thesis by simp
  qed
qed

lemma inflight_onmessage:
  assumes "inflight_complete st"
  shows "inflight_complete (snd (snd (onmessage msg t st)))"
  unfolding onmessage_def
proof (rule steps_preserves [where P = inflight_complete, OF _ assms])
  fix f s
  assume f: "f \<in> set [(\<lambda>st. case audioOut msg of
                Some a \<Rightarrow>
                  if a \<noteq> [] \<and> audioCtxRef st \<noteq> None then handle_audio a t st
                  else skip st
              | None \<Rightarrow> skip st),
       (\<lambda>st. case outputTranscription msg of
                Some transcript \<Rightarrow> handle_transcription transcript st
              | None \<Rightarrow> skip st)]"
    and s: "inflight_complete s"
  have "inflight_complete (snd (snd (handle_transcription x s)))" for x
    using s by (simp add: handle_transcription_def inflight_complete_def Let_def)
  with f s inflight_handle_audio [OF s] show "inflight_complete (snd (snd (f s)))"
    by (auto simp: skip_def split: option.splits)
qed

lemma inflight_onended:
  assumes "inflight_complete st"
  shows "inflight_complete (snd (snd (onended i st)))"
proof -
  let ?ns = "(nodes st)[i := (nodes st ! i)\<lparr>finished := True\<rparr>]"
  have live: "j \<in> set (removeAll i (sourcesRef st))" if "j < length ?ns" "can_fire (?ns ! j)" for j
  proof (cases "j = i")
    case True
    with that show ?thesis by (simp add: can_fire_def)
  next
    case False
    with that have "j < length (nodes st)" "can_fire (nodes st ! j)" by simp_all
    with assms have "j \<in> set (sourcesRef st)"
      unfolding inflight_complete_def by blast
    with False show ?thesis by simp
  qed
  have known: "j < length ?ns" if "j \<in> set (removeAll i (sourcesRef st))" for j
  proof -
    from that have "j \<in> set (sourcesRef st)" by simp
    with assms have "j < length (nodes st)"
      unfolding inflight_complete_def by blast
    then show ?thesis by simp
  qed
  have "nodes (snd (snd (onended i st))) = ?ns"
    and "sourcesRef (snd (snd (onended i st))) = removeAll i (sourcesRef st)"
    by (simp_all add: onended_def)
  with live known show ?thesis
    unfolding inflight_complete_def by (metis (no_types))
qed

lemma inflight_cong:
  assumes "inflight_complete st" and "nodes st' = nodes st" and "sourcesRef st' = sourcesRef st"
  shows "inflight_complete st'"
  using assms by (simp add: inflight_complete_def)

lemma inflight_handler:
  assumes "inflight_complete st"
  shows "inflight_complete (snd (snd (handler e st)))"
proof (cases e)
  case (EvStart ctx)
  show ?thesis
    by (rule inflight_cong [OF assms]) (simp_all add: EvStart start_begin_def)
next
  case EvRendered
  show ?thesis
    by (rule inflight_cong [OF assms]) (simp_all add: EvRendered rendered_def)
next
  case (EvMedia tracks)
  show ?thesis
    by (rule inflight_cong [OF assms])
       (simp_all add: EvMedia start_media_def split: option.splits)
next
  case (EvOpen mic)
  show ?thesis
    by (rule inflight_cong [OF assms]) (simp_all add: EvOpen onopen_def)
next
  case (EvSession s)
  show ?thesis
    by (rule inflight_cong [OF assms]) (simp_all add: EvSession start_session_def)
next
  case EvTick
  show ?thesis
    by (rule inflight_cong [OF assms]) (simp_all add: EvTick ontick_def)
next
  case (EvFrameEncoded hasBlob)
  show ?thesis
    by (rule inflight_cong [OF assms]) (simp_all add: EvFrameEncoded onframe_encoded_def)
next
  case (EvAudioProcess inputData)
  show ?thesis
    by (rule inflight_cong [OF assms]) (simp_all add: EvAudioProcess onaudioprocess_def Let_def)
next
  case (EvMessage msg t)
  then show ?thesis using inflight_onmessage [OF assms] by simp
next
  case (EvEnded i)
  then show ?thesis using inflight_onended [OF assms] by simp
next
  case (EvStop throwing)
  then show ?thesis using inflight_torn_down(1) [OF assms] by (simp add: stopScanner_eq)
next
  case (EvStartFailed throwing message)
  then show ?thesis
    using inflight_torn_down(1) [OF assms]
    by (simp add: start_catch_def stopScanner_eq infallible_call_def skip_def)
next
  case (EvNeuralSync enabled throwing)
  have "inflight_complete (st\<lparr>isNeuralSyncEnabled := enabled\<rparr>)"
    by (rule inflight_cong [OF assms]) simp_all
  from this inflight_torn_down(1) [OF this] EvNeuralSync show ?thesis
    by (cases enabled) (simp_all add: stopScanner_eq assign_def skip_def)
qed

lemma snd_run_Cons: "snd (run (e # es) st) = snd (run es (snd (snd (handler e st))))"
  by (cases "handler e st"; cases "run es (snd (snd (handler e st)))") simp_all

lemma inflight_run:
  "inflight_complete st \<Longrightarrow> inflight_complete (snd (run es st))"
proof (induction es arbitrary: st)
  case Nil
  then show ?case by simp
next
  case (Cons e es)
  from Cons.prems have "inflight_complete (snd (snd (handler e st)))"
    by (rule inflight_handler)
  then have "inflight_complete (snd (run es (snd (snd (handler e st)))))"
    by (rule Cons.IH)
  then show ?case by (simp only: snd_run_Cons)
qed

lemma inflight_idle: "inflight_complete (idle_scanner enabled gamified)"
  by (simp add: inflight_complete_def idle_scanner_def)


lemma silent_cong:
  assumes "silent_below n st" and "nodes st' = nodes st"
  shows "silent_below n st'"
  using assms by (simp add: silent_below_def)

lemma silent_torn_down:
  assumes "silent_below n st"
  shows "silent_below n (torn_down st)"
proof -
  have nodes: "nodes (torn_down st) = stop_all (sourcesRef st) (nodes st)"
    by (simp add: torn_down_def)
  have "\<not> can_fire (stop_all (sourcesRef st) (nodes st) ! i)" if "i < n" for i
  proof -
    from that assms have "i < length (nodes st)" "\<not> can_fire (nodes st ! i)"
      by (simp_all add: silent_below_def)
    then show ?thesis
      by (auto simp: can_fire_def stopped_stop_all finished_stop_all)
  qed
  with assms nodes show ?thesis
    by (simp add: silent_below_def)
qed

lemma silent_handle_audio:
  assumes "silent_below n st"
  shows "silent_below n (snd (snd (handle_audio a t st)))"
  using assms
  by (auto simp: handle_audio_def silent_below_def Let_def nth_append split: sum.splits)

lemma silent_onmessage:
  assumes "silent_below n st"
  shows "silent_below n (snd (snd (onmessage msg t st)))"
  unfolding onmessage_def
proof (rule steps_preserves [where P = "silent_below n", OF _ assms])
  fix f s
  assume f: "f \<in> set [(\<lambda>st. case audioOut msg of
                Some a \<Rightarrow>
                  if a \<noteq> [] \<and> audioCtxRef st \<noteq> None then handle_audio a t st
                  else skip st
              | None \<Rightarrow> skip st),
       (\<lambda>st. case outputTranscription msg of
                Some transcript \<Rightarrow> handle_transcription transcript st
              | None \<Rightarrow> skip st)]"
    and s: "silent_below n s"
  have "silent_below n (snd (snd (handle_transcription x s)))" for x
    by (rule silent_cong [OF s]) (simp add: handle_transcription_def Let_def)
  with f s silent_handle_audio [OF s] show "silent_below n (snd (snd (f s)))"
    by (auto simp: skip_def split: option.splits)
qed

lemma silent_onended:
  assumes "silent_below n st"
  shows "silent_below n (snd (snd (onended i st)))"
proof -
  let ?ns = "(nodes st)[i := (nodes st ! i)\<lparr>finished := True\<rparr>]"
  have "\<not> can_fire (?ns ! j)" if "j < n" for j
  proof (cases "j = i")
    case True
    with that assms show ?thesis by (simp add: can_fire_def silent_below_def)
  next
    case False
    with that assms show ?thesis by (simp add: silent_below_def)
  qed
  moreover have "nodes (snd (snd (onended i st))) = ?ns"
    by (simp add: onended_def)
  ultimately show ?thesis
    using assms by (simp add: silent_below_def)
qed

lemma silent_handler:
  assumes "silent_below n st"
  shows "silent_below n (snd (snd (handler e st)))"
proof (cases e)
  case (EvStart ctx)
  show ?thesis
    by (rule silent_cong [OF assms]) (simp add: EvStart start_begin_def)
next
  case EvRendered
  show ?thesis
    by (rule silent_cong [OF assms]) (simp add: EvRendered rendered_def)
next
  case (EvMedia tracks)
  show ?thesis
    by (rule silent_cong [OF assms]) (simp add: EvMedia start_media_def split: option.splits)
next
  case (EvOpen mic)
  show ?thesis
    by (rule silent_cong [OF assms]) (simp add: EvOpen onopen_def)
next
  case (EvSession s)
  show ?thesis
    by (rule silent_cong [OF assms]) (simp add: EvSession start_session_def)
next
  case EvTick
  show ?thesis
    by (rule silent_cong [OF assms]) (simp add: EvTick ontick_def)
next
  case (EvFrameEncoded hasBlob)
  show ?thesis
    by (rule silent_cong [OF assms]) (simp add: EvFrameEncoded onframe_encoded_def)
next
  case (EvAudioProcess inputData)
  show ?thesis
    by (rule silent_cong [OF assms]) (simp add: EvAudioProcess onaudioprocess_def Let_def)
next
  case (EvMessage msg t)
  then show ?thesis using silent_onmessage [OF assms] by simp
next
  case (EvEnded i)
  then show ?thesis using silent_onended [OF assms] by simp
next
  case (EvStop throwing)
  then show ?thesis using silent_torn_down [OF assms] by (simp add: stopScanner_eq)
next
  case (EvStartFailed throwing message)
  then show ?thesis
    using silent_torn_down [OF assms]
    by (simp add: start_catch_def stopScanner_eq infallible_call_def skip_def)
next
  case (EvNeuralSync enabled throwing)
  have "silent_below n (st\<lparr>isNeuralSyncEnabled := enabled\<rparr>)"
    by (rule silent_cong [OF assms]) simp
  from this silent_torn_down [OF this] EvNeuralSync show ?thesis
    by (cases enabled) (simp_all add: stopScanner_eq assign_def skip_def)
qed

lemma silent_run:
  "silent_below n st \<Longrightarrow> silent_below n (snd (run es st))"
proof (induction es arbitrary: st)
  case Nil
  then show ?case by simp
next
  case (Cons e es)
  from Cons.prems have "silent_below n (snd (snd (handler e st)))"
    by (rule silent_handler)
  then have "silent_below n (snd (run es (snd (snd (handler e st)))))"
    by (rule Cons.IH)
  then show ?case by (simp only: snd_run_Cons)
qed

text \<open>
  C3: in every state the view can reach from its first rendering, once \<^verbatim>\<open>stopScanner\<close>
  has returned, no exception has escaped it, \<^verbatim>\<open>stop()\<close> has been called on every node
  that was in the in-flight set and each of them is stopped, the set is empty, the cursor
  is zero, and no node of the store can sound: none at that moment, and none of them
  after any further events.
\<close>

theorem stop_cancels_playback:
  assumes "snd (run es (idle_scanner enabled gamified)) = st"
    and "stopScanner raises st = (calls, err, st')"
  shows "err = None \<and>
         (\<forall>i \<in> set (sourcesRef st). StopSource i \<in> set calls \<and> stopped (nodes st' ! i)) \<and>
         sourcesRef st' = [] \<and> nextStartTimeRef st' = 0 \<and>
         (\<forall>n \<in> set (nodes st'). \<not> can_fire n) \<and>
         (\<forall>later. \<forall>i < length (nodes st'). \<not> can_fire (nodes (snd (run later st')) ! i))"
proof -
  have inv: "inflight_complete st"
    using assms(1) inflight_run [OF inflight_idle] by blast
  from assms(2) have calls: "calls = teardown_calls st" and err: "err = None"
    and st': "st' = torn_down st"
    by (simp_all add: stopScanner_eq)
  have "StopSource i \<in> set calls \<and> stopped (nodes st' ! i)" if "i \<in> set (sourcesRef st)" for i
  proof -
    from that inv have "i < length (nodes st)"
      unfolding inflight_complete_def by blast
    with that show ?thesis
      by (simp add: calls st' teardown_calls_def torn_down_def stopped_stop_all)
  qed
  moreover have quiet: "\<forall>n \<in> set (nodes st'). \<not> can_fire n"
    unfolding st' using inv by (rule inflight_torn_down(2))
  moreover have "\<not> can_fire (nodes (snd (run later st')) ! i)" if "i < length (nodes st')" for later i
  proof -
    have "silent_below (length (nodes st')) st'"
      using quiet by (simp add: silent_below_def)
    then have "silent_below (length (nodes st')) (snd (run later st'))"
      by (rule silent_run)
    with that show ?thesis by (simp add: silent_below_def)
  qed
  moreover have "sourcesRef st' = []" "nextStartTimeRef st' = 0"
    by (simp_all add: st' torn_down_def)
  ultimately show ?thesis
    using err by blast
qed

lemma stopScanner_scanning:
  "stopScanner raises scanning_scanner =
     ([CloseSession 3, StopTrack 10, StopTrack 11, StopSource 0, CloseOutputContext 1,
       CloseMicContext 2], None,
      scanning_scanner\<lparr>active := False, sessionRef := None, videoRef := Some None,
        audioCtxRef := None, nextStartTimeRef := 0, sourcesRef := [], micCtxRef := None,
        nodes := [\<lparr>startAt = 0,
                nodeBuffer = \<lparr>numberOfChannels = 1, frames = 1, sampleRate = 24000,
                              channelData = [[- 1]]\<rparr>,
                stopped = True, finished = False\<rparr>]\<rparr>)"
  by (simp add: stopScanner_eq teardown_calls_def torn_down_def scanning_scanner_eq)

text \<open>
  The session in full swing has one node in flight that can still sound; after
  \<^verbatim>\<open>stopScanner\<close> it is stopped, the set is empty and the cursor is zero.
\<close>

theorem stop_cancels_playback_witness:
  "sourcesRef scanning_scanner = [0] \<and>
   can_fire (nodes scanning_scanner ! 0) \<and>
   stopped (nodes (snd (snd (stopScanner (\<lambda>a. False) scanning_scanner))) ! 0) \<and>
   sourcesRef (snd (snd (stopScanner (\<lambda>a. False) scanning_scanner))) = [] \<and>
   nextStartTimeRef (snd (snd (stopScanner (\<lambda>a. False) scanning_scanner))) = 0 \<and>
   \<not> can_fire (nodes (snd (snd (stopScanner (\<lambda>a. False) scanning_scanner))) ! 0)"
proof -
  let ?st' = "snd (snd (stopScanner (\<lambda>a. False) scanning_scanner))"
  have eq: "stopScanner (\<lambda>a. False) scanning_scanner =
      (fst (stopScanner (\<lambda>a. False) scanning_scanner),
       fst (snd (stopScanner (\<lambda>a. False) scanning_scanner)), ?st')"
    by simp
  note w = stop_cancels_playback [OF scanning_scanner_def [symmetric] eq]
  have src: "sourcesRef scanning_scanner = [0]"
    and fire: "can_fire (nodes scanning_scanner ! 0)"
    by (simp_all add: scanning_scanner_eq can_fire_def)
  have len: "0 < length (nodes ?st')"
    by (simp add: stopScanner_scanning)
  from w src have "stopped (nodes ?st' ! 0)"
    by simp
  moreover from w have "sourcesRef ?st' = []" "nextStartTimeRef ?st' = 0"
    by blast+
  moreover from w len have "\<not> can_fire (nodes (snd (run [] ?st')) ! 0)"
    by blast
  ultimately show ?thesis
    using src fire by simp
qed

text \<open>
  C5: \<^verbatim>\<open>stopScanner\<close> never throws, whatever the platform calls do; a second call right
  after the first makes no call at all (so nothing is released twice), throws nothing and
  leaves the state as the first call left it; and a call in the view that was never
  started makes no call and changes nothing.
\<close>

theorem stopScanner_idempotent:
  "fst (snd (stopScanner raises st)) = None \<and>
   stopScanner raises' (snd (snd (stopScanner raises st))) =
     ([], None, snd (snd (stopScanner raises st))) \<and>
   stopScanner raises (idle_scanner enabled gamified) = ([], None, idle_scanner enabled gamified)"
proof -
  have "teardown_calls (torn_down st) = []"
    by (simp add: teardown_calls_def torn_down_def split: option.splits)
  moreover have "torn_down (torn_down st) = torn_down st"
    by (simp add: torn_down_def split: option.splits)
  moreover have "teardown_calls (idle_scanner enabled gamified) = []"
    and "torn_down (idle_scanner enabled gamified) = idle_scanner enabled gamified"
    by (simp_all add: teardown_calls_def torn_down_def idle_scanner_def)
  ultimately show ?thesis
    by (simp add: stopScanner_eq)
qed

text \<open>
  C4, as stated, fails: in the session in full swing the capture tracks (phase c of the
  specification) are stopped before the in-flight source node (phase b), the microphone
  context (c) is closed after the output context (d), and the frame interval registered
  by \<^verbatim>\<open>onopen\<close> is still registered when \<^verbatim>\<open>stopScanner\<close> has returned.
\<close>

theorem teardown_order_counterexample:
  "fst (stopScanner (\<lambda>a. False) scanning_scanner) =
     [CloseSession 3, StopTrack 10, StopTrack 11, StopSource 0, CloseOutputContext 1,
      CloseMicContext 2] \<and>
   \<not> in_specified_order (fst (stopScanner (\<lambda>a. False) scanning_scanner)) \<and>
   frameTimers scanning_scanner = 1 \<and>
   frameTimers (snd (snd (stopScanner (\<lambda>a. False) scanning_scanner))) = 1"
  by (simp add: stopScanner_scanning in_specified_order_def List.map_filter_simps)
     (simp add: scanning_scanner_eq)

text \<open>
  C4, amended: whatever calls throw, \<^verbatim>\<open>stopScanner\<close> makes these calls in this order and
  lets no exception escape: it closes the session; stops the tracks of the video stream;
  stops every source node of the in-flight set; closes the output context; closes the
  microphone context. Afterwards the session handle, the stream of the video element and
  both contexts are cleared, the in-flight set is empty and the cursor is zero.
\<close>

theorem stopScanner_teardown_order:
  "fst (stopScanner raises st) =
     (case sessionRef st of None \<Rightarrow> [] | Some s \<Rightarrow> [CloseSession s]) @
     (case videoRef st of Some (Some tracks) \<Rightarrow> map StopTrack tracks | _ \<Rightarrow> []) @
     map StopSource (sourcesRef st) @
     (case audioCtxRef st of None \<Rightarrow> [] | Some c \<Rightarrow> [CloseOutputContext c]) @
     (case micCtxRef st of None \<Rightarrow> [] | Some c \<Rightarrow> [CloseMicContext c]) \<and>
   fst (snd (stopScanner raises st)) = None \<and>
   sessionRef (snd (snd (stopScanner raises st))) = None \<and>
   videoRef (snd (snd (stopScanner raises st))) \<noteq> Some (Some tracks) \<and>
   audioCtxRef (snd (snd (stopScanner raises st))) = None \<and>
   micCtxRef (snd (snd (stopScanner raises st))) = None \<and>
   sourcesRef (snd (snd (stopScanner raises st))) = [] \<and>
   nextStartTimeRef (snd (snd (stopScanner raises st))) = 0"
  by (simp add: stopScanner_eq teardown_calls_def) (simp add: torn_down_def split: option.splits)

section \<open>Playback scheduling\<close>

lemma decoded_chunk_duration:
  assumes "decoded_chunk a = Inr buffer"
  shows "0 < duration buffer"
  using assms
  by (auto simp: decoded_chunk_def decodeAudioData_def createBuffer_def duration_def Let_def
      split: sum.splits if_splits)

lemma handle_audio_cursor:
  "nextStartTimeRef st \<le> nextStartTimeRef (snd (snd (handle_audio a t st)))"
proof (cases "decoded_chunk a")
  case (Inl e)
  then show ?thesis by (simp add: handle_audio_def)
next
  case (Inr buffer)
  then have "0 < duration buffer" by (rule decoded_chunk_duration)
  with Inr show ?thesis by (auto simp: handle_audio_def Let_def max_def)
qed

lemma steps_cursor:
  assumes "\<And>f s. f \<in> set fs \<Longrightarrow>
             nextStartTimeRef (s :: scanner) \<le> nextStartTimeRef (snd (snd (f s)))"
  shows "nextStartTimeRef st \<le> nextStartTimeRef (snd (snd (steps fs st)))"
proof -
  have "c \<le> nextStartTimeRef (snd (snd (steps fs st)))" if "c \<le> nextStartTimeRef st" for c
  proof (rule steps_preserves [where P = "\<lambda>s. c \<le> nextStartTimeRef s"])
    show "c \<le> nextStartTimeRef st" by (rule that)
  next
    fix f and s :: scanner
    assume "f \<in> set fs" "c \<le> nextStartTimeRef s"
    with assms [of f s] show "c \<le> nextStartTimeRef (snd (snd (f s)))" by simp
  qed
  then show ?thesis by simp
qed

lemma onmessage_cursor:
  "nextStartTimeRef st \<le> nextStartTimeRef (snd (snd (onmessage msg t st)))"
  unfolding onmessage_def
proof (rule steps_cursor)
  fix f and s :: scanner
  assume "f \<in> set [(\<lambda>st. case audioOut msg of
                Some a \<Rightarrow>
                  if a \<noteq> [] \<and> audioCtxRef st \<noteq> None then handle_audio a t st
                  else skip st
              | None \<Rightarrow> skip st),
       (\<lambda>st. case outputTranscription msg of
                Some transcript \<Rightarrow> handle_transcription transcript st
              | None \<Rightarrow> skip st)]"
  then show "nextStartTimeRef s \<le> nextStartTimeRef (snd (snd (f s)))"
    using handle_audio_cursor [of s]
    by (auto simp: skip_def handle_transcription_def Let_def split: option.splits)
qed

lemma handler_cursor:
  assumes "\<not> tears_down e"
  shows "nextStartTimeRef st \<le> nextStartTimeRef (snd (snd (handler e st)))"
proof (cases e)
  case (EvMessage msg t)
  then show ?thesis using onmessage_cursor by simp
next
  case (EvNeuralSync enabled throwing)
  with assms show ?thesis by (simp add: assign_def skip_def)
qed (use assms in \<open>simp_all add: start_begin_def rendered_def start_media_def onopen_def
      start_session_def onended_def ontick_def onframe_encoded_def onaudioprocess_def Let_def
      split: option.splits\<close>)

lemma run_cursor:
  "\<forall>e \<in> set es. \<not> tears_down e \<Longrightarrow> nextStartTimeRef st \<le> nextStartTimeRef (snd (run es st))"
proof (induction es arbitrary: st)
  case Nil
  then show ?case by simp
next
  case (Cons e es)
  then have "nextStartTimeRef st \<le> nextStartTimeRef (snd (snd (handler e st)))"
    by (simp add: handler_cursor)
  also from Cons have "\<dots> \<le> nextStartTimeRef (snd (run es (snd (snd (handler e st)))))"
    by simp
  finally show ?case by (simp only: snd_run_Cons)
qed

lemma snd_run_append: "snd (run (es @ es') st) = snd (run es' (snd (run es st)))"
  by (induction es arbitrary: st) (simp_all add: snd_run_Cons del: run.simps(2))


lemma handle_audio_schedules:
  assumes "decoded_chunk a = Inr buffer" and "0 \<le> t"
  shows "handle_audio a t st =
    ([StartSource (length (nodes st)) (max (nextStartTimeRef st) t)], None,
     st\<lparr>nextStartTimeRef := max (nextStartTimeRef st) t + duration buffer,
        nodes := nodes st @ [scheduled (max (nextStartTimeRef st) t) buffer],
        sourcesRef := sourcesRef st @ [length (nodes st)]\<rparr>)"
proof -
  from assms(2) have "\<not> max (nextStartTimeRef st) t < 0" by simp
  with assms(1) show ?thesis
    by (simp add: handle_audio_def Let_def scheduled_def)
qed

lemma chunk_of_Some:
  "chunk_of msg = Some buffer \<longleftrightarrow>
     (\<exists>a. audioOut msg = Some a \<and> a \<noteq> [] \<and> decoded_chunk a = Inr buffer)"
  by (auto simp: chunk_of_def split: option.splits sum.splits if_splits)

lemma onmessage_schedules:
  assumes "chunk_of msg = Some buffer" and "audioCtxRef st \<noteq> None" and "0 \<le> t"
  shows "fst (onmessage msg t st) = [StartSource (length (nodes st)) (max (nextStartTimeRef st) t)]"
    and "fst (snd (onmessage msg t st)) = None"
    and "nodes (snd (snd (onmessage msg t st))) =
           nodes st @ [scheduled (max (nextStartTimeRef st) t) buffer]"
    and "sourcesRef (snd (snd (onmessage msg t st))) = sourcesRef st @ [length (nodes st)]"
    and "nextStartTimeRef (snd (snd (onmessage msg t st))) =
           max (nextStartTimeRef st) t + duration buffer"
    and "audioCtxRef (snd (snd (onmessage msg t st))) = audioCtxRef st"
proof -
  from assms(1) obtain a where a: "audioOut msg = Some a" "a \<noteq> []" "decoded_chunk a = Inr buffer"
    unfolding chunk_of_Some by blast
  note h = handle_audio_schedules [OF a(3) assms(3), of st]
  show "fst (onmessage msg t st) = [StartSource (length (nodes st)) (max (nextStartTimeRef st) t)]"
    and "fst (snd (onmessage msg t st)) = None"
    and "nodes (snd (snd (onmessage msg t st))) =
           nodes st @ [scheduled (max (nextStartTimeRef st) t) buffer]"
    and "sourcesRef (snd (snd (onmessage msg t st))) = sourcesRef st @ [length (nodes st)]"
    and "nextStartTimeRef (snd (snd (onmessage msg t st))) =
           max (nextStartTimeRef st) t + duration buffer"
    and "audioCtxRef (snd (snd (onmessage msg t st))) = audioCtxRef st"
    using a assms(2)
    by (simp_all add: onmessage_def h skip_def handle_transcription_def Let_def
        split: option.splits)
qed

lemma gapless_run:
  assumes "audioCtxRef st \<noteq> None"
    and "map (\<lambda>(msg, t). chunk_of msg) ms = map Some bs"
    and "\<forall>i < length ms. 0 \<le> snd (ms ! i) \<and>
           snd (ms ! i) \<le> nextStartTimeRef st + sum_list (map duration (take i bs))"
  shows "nodes (snd (run (map (\<lambda>(msg, t). EvMessage msg t) ms) st)) =
           nodes st @
           map (\<lambda>i. scheduled (nextStartTimeRef st + sum_list (map duration (take i bs))) (bs ! i))
             [0..<length ms] \<and>
         nextStartTimeRef (snd (run (map (\<lambda>(msg, t). EvMessage msg t) ms) st)) =
           nextStartTimeRef st + sum_list (map duration bs) \<and>
         audioCtxRef (snd (run (map (\<lambda>(msg, t). EvMessage msg t) ms) st)) = audioCtxRef st"
  using assms(2,3)
proof (induction ms arbitrary: bs rule: rev_induct)
  case Nil
  then show ?case by simp
next
  case (snoc x ms)
  obtain msg t where x: "x = (msg, t)" by (cases x)
  from snoc.prems(1) have len: "length bs = Suc (length ms)"
    by (metis length_append_singleton length_map)
  then obtain bs' b where bs: "bs = bs' @ [b]" and len': "length bs' = length ms"
    by (cases bs rule: rev_cases) auto
  from snoc.prems(1) have dec: "map (\<lambda>(msg, t). chunk_of msg) ms = map Some bs'"
    and b: "chunk_of msg = Some b"
    by (simp_all add: bs x)
  let ?c = "nextStartTimeRef st"
  let ?mid = "snd (run (map (\<lambda>(msg, t). EvMessage msg t) ms) st)"
  have clk: "\<forall>i < length ms. 0 \<le> snd (ms ! i) \<and>
      snd (ms ! i) \<le> ?c + sum_list (map duration (take i bs'))"
  proof (intro allI impI)
    fix i assume i: "i < length ms"
    with snoc.prems(2) have "0 \<le> snd ((ms @ [x]) ! i) \<and>
        snd ((ms @ [x]) ! i) \<le> ?c + sum_list (map duration (take i bs))"
      by simp
    with i len' show "0 \<le> snd (ms ! i) \<and> snd (ms ! i) \<le> ?c + sum_list (map duration (take i bs'))"
      by (simp add: nth_append bs)
  qed
  note IH = snoc.IH [OF dec clk]
  have "length ms < length (ms @ [x])" by simp
  with snoc.prems(2) have "0 \<le> snd ((ms @ [x]) ! length ms) \<and>
      snd ((ms @ [x]) ! length ms) \<le> ?c + sum_list (map duration (take (length ms) bs))"
    by blast
  then have t: "0 \<le> t" "t \<le> ?c + sum_list (map duration bs')"
    by (simp_all add: x bs len')
  from IH have mid: "nextStartTimeRef ?mid = ?c + sum_list (map duration bs')"
    "audioCtxRef ?mid \<noteq> None" using assms(1) by simp_all
  have run: "snd (run (map (\<lambda>(msg, t). EvMessage msg t) (ms @ [x])) st) =
      snd (snd (onmessage msg t ?mid))"
    by (simp add: snd_run_append x snd_run_Cons del: run.simps(2))
  have start: "max (nextStartTimeRef ?mid) t = ?c + sum_list (map duration bs')"
    using mid(1) t(2) by simp
  have same: "map (\<lambda>i. scheduled (?c + sum_list (map duration (take i bs))) (bs ! i)) [0..<length ms]
      = map (\<lambda>i. scheduled (?c + sum_list (map duration (take i bs'))) (bs' ! i)) [0..<length ms]"
    using len' by (simp add: bs nth_append)
  have final: "(bs' @ [b]) ! length ms = b"
    using len' by (metis nth_append_length)
  show ?case
    unfolding run
    using onmessage_schedules [OF b mid(2) t(1)] IH start same len' final
    by (simp add: bs)
qed


text \<open>
  C1: a message with an audio payload that decodes, handled while the output context is
  live at a clock reading that is not negative, starts one new node for the decoded buffer
  at exactly \<open>max cursor clock\<close> and throws nothing; when the clock has passed the
  cursor, that start is the clock reading. For a sequence of such messages in which the
  clock is never ahead of the cursor, chunk \<open>i\<close> starts at the first cursor plus the
  durations of the chunks before it.
\<close>

theorem playback_schedule:
  "(audioOut msg = Some a \<and> a \<noteq> [] \<and> audioCtxRef st \<noteq> None \<and>
    decoded_chunk a = Inr buffer \<and> 0 \<le> currentTime \<longrightarrow>
      fst (onmessage msg currentTime st) =
        [StartSource (length (nodes st)) (max (nextStartTimeRef st) currentTime)] \<and>
      fst (snd (onmessage msg currentTime st)) = None \<and>
      nodes (snd (snd (onmessage msg currentTime st))) =
        nodes st @ [scheduled (max (nextStartTimeRef st) currentTime) buffer] \<and>
      (nextStartTimeRef st < currentTime \<longrightarrow>
         startAt (last (nodes (snd (snd (onmessage msg currentTime st))))) = currentTime)) \<and>
   (audioCtxRef st \<noteq> None \<and> map (\<lambda>(msg, t). chunk_of msg) ms = map Some bs \<and>
    (\<forall>i < length ms. 0 \<le> snd (ms ! i) \<and>
       snd (ms ! i) \<le> nextStartTimeRef st + sum_list (map duration (take i bs))) \<longrightarrow>
      (\<forall>i < length ms.
         startAt (nodes (snd (run (map (\<lambda>(msg, t). EvMessage msg t) ms) st)) !
                    (length (nodes st) + i)) =
           nextStartTimeRef st + sum_list (map duration (take i bs))))"
proof (intro conjI impI)
  assume h: "audioOut msg = Some a \<and> a \<noteq> [] \<and> audioCtxRef st \<noteq> None \<and>
    decoded_chunk a = Inr buffer \<and> 0 \<le> currentTime"
  then have chunk: "chunk_of msg = Some buffer"
    unfolding chunk_of_Some by blast
  from h have live: "audioCtxRef st \<noteq> None" and t: "0 \<le> currentTime"
    by simp_all
  note sched = onmessage_schedules [OF chunk live t]
  show "fst (onmessage msg currentTime st) =
      [StartSource (length (nodes st)) (max (nextStartTimeRef st) currentTime)]"
    by (rule sched(1))
  show "fst (snd (onmessage msg currentTime st)) = None"
    by (rule sched(2))
  show "nodes (snd (snd (onmessage msg currentTime st))) =
      nodes st @ [scheduled (max (nextStartTimeRef st) currentTime) buffer]"
    by (rule sched(3))
  show "startAt (last (nodes (snd (snd (onmessage msg currentTime st))))) = currentTime"
    if "nextStartTimeRef st < currentTime"
    using that by (simp add: sched(3) scheduled_def)
next
  assume h: "audioCtxRef st \<noteq> None \<and> map (\<lambda>(msg, t). chunk_of msg) ms = map Some bs \<and>
    (\<forall>i < length ms. 0 \<le> snd (ms ! i) \<and>
       snd (ms ! i) \<le> nextStartTimeRef st + sum_list (map duration (take i bs)))"
  then have "nodes (snd (run (map (\<lambda>(msg, t). EvMessage msg t) ms) st)) =
      nodes st @
      map (\<lambda>i. scheduled (nextStartTimeRef st + sum_list (map duration (take i bs))) (bs ! i))
        [0..<length ms]"
    using gapless_run [of st ms bs] by blast
  then show "\<forall>i < length ms.
      startAt (nodes (snd (run (map (\<lambda>(msg, t). EvMessage msg t) ms) st)) !
                 (length (nodes st) + i)) =
        nextStartTimeRef st + sum_list (map duration (take i bs))"
    by (simp add: scheduled_def)
qed

text \<open>
  In the session in full swing the cursor is 1/24000. A chunk arriving at clock 5 starts
  at 5; two chunks arriving at clock 0 start at 1/24000 and 2/24000.
\<close>

theorem playback_schedule_witness:
  "nextStartTimeRef scanning_scanner = 1 / 24000 \<and>
   length (nodes scanning_scanner) = 1 \<and>
   decoded_chunk ''AIA='' = Inr one_sample \<and>
   duration one_sample = 1 / 24000 \<and>
   startAt (last (nodes (snd (snd (onmessage one_sample_message 5 scanning_scanner))))) = 5 \<and>
   startAt (nodes (snd (run [EvMessage one_sample_message 0, EvMessage one_sample_message 0]
                          scanning_scanner)) ! 1) = 1 / 24000 \<and>
   startAt (nodes (snd (run [EvMessage one_sample_message 0, EvMessage one_sample_message 0]
                          scanning_scanner)) ! 2) = 2 / 24000"
proof -
  have c: "nextStartTimeRef scanning_scanner = 1 / 24000"
    and n: "length (nodes scanning_scanner) = 1"
    and live: "audioCtxRef scanning_scanner \<noteq> None"
    by (simp_all add: scanning_scanner_eq)
  have dec: "decoded_chunk ''AIA='' = Inr one_sample"
    by (simp add: decoded_AIA one_sample_def)
  have d: "duration one_sample = 1 / 24000"
    by (simp add: duration_def one_sample_def)
  have chunk: "chunk_of one_sample_message = Some one_sample"
    by (simp add: chunk_of_def one_sample_message_def dec)
  note w = playback_schedule [where msg = one_sample_message and a = "''AIA=''"
      and st = scanning_scanner and buffer = one_sample and currentTime = 5
      and ms = "[(one_sample_message, 0), (one_sample_message, 0)]"
      and bs = "[one_sample, one_sample]"]
  have hyp1: "audioOut one_sample_message = Some ''AIA='' \<and> ''AIA='' \<noteq> [] \<and>
      audioCtxRef scanning_scanner \<noteq> None \<and> decoded_chunk ''AIA='' = Inr one_sample \<and>
      (0::real) \<le> 5"
    using live dec by (simp add: one_sample_message_def)
  have late: "nextStartTimeRef scanning_scanner < 5"
    by (simp add: c)
  have hyp2: "audioCtxRef scanning_scanner \<noteq> None \<and>
      map (\<lambda>(msg, t). chunk_of msg) [(one_sample_message, 0 :: real), (one_sample_message, 0)] =
        map Some [one_sample, one_sample] \<and>
      (\<forall>i < length [(one_sample_message, 0 :: real), (one_sample_message, 0)].
         0 \<le> snd ([(one_sample_message, 0 :: real), (one_sample_message, 0)] ! i) \<and>
         snd ([(one_sample_message, 0), (one_sample_message, 0)] ! i) \<le>
           nextStartTimeRef scanning_scanner +
           sum_list (map duration (take i [one_sample, one_sample])))"
    using live chunk c d by (simp add: less_Suc_eq numeral_2_eq_2)
  note catch_up = w [THEN conjunct1, THEN mp, OF hyp1, THEN conjunct2, THEN conjunct2,
      THEN conjunct2, THEN mp, OF late]
  note seq = w [THEN conjunct2, THEN mp, OF hyp2, rule_format]
  have "startAt (nodes (snd (run [EvMessage one_sample_message 0, EvMessage one_sample_message 0]
                          scanning_scanner)) ! 1) = 1 / 24000"
    using seq [of 0] c n by (simp del: run.simps)
  moreover have "startAt (nodes (snd (run [EvMessage one_sample_message 0,
      EvMessage one_sample_message 0] scanning_scanner)) ! 2) = 2 / 24000"
    using seq [of 1] c n d by (simp del: run.simps add: numeral_2_eq_2)
  ultimately show ?thesis
    using c n dec d catch_up by blast
qed

text \<open>
  C2: handling an inbound message never lowers the cursor, whether the payload decodes or
  not; and over any run of events that holds no teardown, after any earlier events, the
  cursor at the end is at least the cursor at the beginning.
\<close>

theorem cursor_monotone:
  "nextStartTimeRef st \<le> nextStartTimeRef (snd (snd (onmessage msg currentTime st))) \<and>
   ((\<forall>e \<in> set es. \<not> tears_down e) \<longrightarrow>
      nextStartTimeRef (snd (run before st)) \<le> nextStartTimeRef (snd (run (before @ es) st)))"
  by (simp add: onmessage_cursor snd_run_append run_cursor)

text \<open>
  A chunk at clock 5 and a timer tick, in the session in full swing: the cursor goes from
  1/24000 to 5 + 1/24000.
\<close>

theorem cursor_monotone_witness:
  "\<not> tears_down (EvMessage one_sample_message 5) \<and> \<not> tears_down EvTick \<and>
   nextStartTimeRef (snd (run [] scanning_scanner)) = 1 / 24000 \<and>
   nextStartTimeRef (snd (run ([] @ [EvMessage one_sample_message 5, EvTick]) scanning_scanner))
     = 5 + 1 / 24000"
proof -
  note w = cursor_monotone [where es = "[EvMessage one_sample_message 5, EvTick]"
      and before = "[]" and st = scanning_scanner]
  have "nextStartTimeRef (snd (run ([] @ [EvMessage one_sample_message 5, EvTick])
      scanning_scanner)) = 5 + 1 / 24000"
    by (simp add: onmessage_def handle_audio_def decoded_AIA one_sample_message_def skip_def
        ontick_def duration_def scanning_scanner_eq)
  moreover have "nextStartTimeRef (snd (run [] scanning_scanner)) = 1 / 24000"
    by (simp add: scanning_scanner_eq)
  ultimately show ?thesis
    using w by simp
qed

section \<open>The hazard alert\<close>

lemma starts_with_iff: "starts_with s k \<longleftrightarrow> (\<exists>q. s = k @ q)"
  by (induction s k rule: starts_with.induct) auto

lemma string_includes_iff: "string_includes s k \<longleftrightarrow> (\<exists>p q. s = p @ k @ q)"
proof (induction s)
  case Nil
  then show ?case by simp
next
  case (Cons c cs)
  show ?case
  proof
    assume "string_includes (c # cs) k"
    then consider "starts_with (c # cs) k" | "string_includes cs k" by auto
    then show "\<exists>p q. c # cs = p @ k @ q"
    proof cases
      case 1
      then obtain q where "c # cs = k @ q" unfolding starts_with_iff by blast
      then have "c # cs = [] @ k @ q" by simp
      then show ?thesis by blast
    next
      case 2
      with Cons.IH obtain p q where "cs = p @ k @ q" by blast
      then have "c # cs = (c # p) @ k @ q" by simp
      then show ?thesis by blast
    qed
  next
    assume "\<exists>p q. c # cs = p @ k @ q"
    then obtain p q where pq: "c # cs = p @ k @ q" by blast
    show "string_includes (c # cs) k"
    proof (cases p)
      case Nil
      with pq have "starts_with (c # cs) k" unfolding starts_with_iff by auto
      then show ?thesis by simp
    next
      case (Cons d ds)
      with pq have "cs = ds @ k @ q" by simp
      with Cons.IH have "string_includes cs k" by blast
      then show ?thesis by simp
    qed
  qed
qed

lemma handle_transcription_alert:
  "mouldAlert (snd (snd (handle_transcription transcript st))) =
     (\<exists>k \<in> set hazard_keywords. string_includes (toLowerCase transcript) k)"
  by (simp add: handle_transcription_def hazard_keywords_def Let_def)

lemma onmessage_alert:
  assumes "fst (snd (onmessage msg t st)) = None" and "outputTranscription msg = Some transcript"
  shows "mouldAlert (snd (snd (onmessage msg t st))) =
     (\<exists>k \<in> set hazard_keywords. string_includes (toLowerCase transcript) k)"
proof -
  let ?audio = "\<lambda>st. case audioOut msg of
                Some a \<Rightarrow>
                  if a \<noteq> [] \<and> audioCtxRef st \<noteq> None then handle_audio a t st
                  else skip st
              | None \<Rightarrow> skip st"
  obtain tr e st1 where a: "?audio st = (tr, e, st1)"
    by (cases "?audio st") auto
  with assms(1) have "e = None"
    by (cases e) (simp_all add: onmessage_def)
  with a assms(2) have "snd (snd (onmessage msg t st)) = snd (snd (handle_transcription transcript st1))"
    by (simp add: onmessage_def handle_transcription_def Let_def)
  then show ?thesis by (simp add: handle_transcription_alert)
qed

lemma lower_mould: "toLowerCase ''I see some mould here'' = ''i see some mould here''"
  by (simp add: toLowerCase_def lower_char_def char_of_def bit_Suc_0_iff)

lemma lower_fresh: "toLowerCase ''looks fresh now'' = ''looks fresh now''"
  by (simp add: toLowerCase_def lower_char_def)

text \<open>
  C6: the transcript branch of \<^verbatim>\<open>onmessage\<close> sets the alert to true exactly when the
  lower-cased text of this event contains one of the trigger words, whatever the alert was
  before; so does \<^verbatim>\<open>onmessage\<close> as a whole whenever it handles a message with a transcript
  and does not throw. From any state, the event with the
  text \<open>I see some mould here\<close> sets the alert and the event \<open>looks fresh now\<close> after it
  clears it.
\<close>

theorem hazard_alert:
  "mouldAlert (snd (snd (handle_transcription transcript st))) =
     (\<exists>k \<in> set hazard_keywords. string_includes (toLowerCase transcript) k) \<and>
   (fst (snd (onmessage msg currentTime st)) = None \<and>
    outputTranscription msg = Some transcript \<longrightarrow>
      mouldAlert (snd (snd (onmessage msg currentTime st))) =
        (\<exists>k \<in> set hazard_keywords. string_includes (toLowerCase transcript) k)) \<and>
   mouldAlert (snd (run [EvMessage mould_event t1] st)) \<and>
   \<not> mouldAlert (snd (run [EvMessage mould_event t1, EvMessage fresh_event t2] st))"
proof (intro conjI impI)
  show "mouldAlert (snd (snd (handle_transcription transcript st))) =
     (\<exists>k \<in> set hazard_keywords. string_includes (toLowerCase transcript) k)"
    by (rule handle_transcription_alert)
next
  assume "fst (snd (onmessage msg currentTime st)) = None \<and>
    outputTranscription msg = Some transcript"
  then show "mouldAlert (snd (snd (onmessage msg currentTime st))) =
        (\<exists>k \<in> set hazard_keywords. string_includes (toLowerCase transcript) k)"
    using onmessage_alert by blast
next
  show "mouldAlert (snd (run [EvMessage mould_event t1] st))"
    by (simp add: onmessage_def skip_def mould_event_def handle_transcription_def lower_mould)
  show "\<not> mouldAlert (snd (run [EvMessage mould_event t1, EvMessage fresh_event t2] st))"
    by (simp add: onmessage_def skip_def mould_event_def fresh_event_def
        handle_transcription_def lower_mould lower_fresh)
qed

text \<open>
  A transcript \<open>FUZZY spots\<close> without audio, in the view not yet started: nothing is
  thrown and the alert is set.
\<close>

theorem hazard_alert_witness:
  "fst (snd (onmessage \<lparr>audioOut = None, outputTranscription = Some ''FUZZY spots''\<rparr> 0
              (idle_scanner True False))) = None \<and>
   string_includes (toLowerCase ''FUZZY spots'') ''fuzzy'' \<and>
   mouldAlert (snd (snd (onmessage \<lparr>audioOut = None, outputTranscription = Some ''FUZZY spots''\<rparr> 0
                          (idle_scanner True False))))"
proof -
  let ?m = "\<lparr>audioOut = None, outputTranscription = Some ''FUZZY spots''\<rparr>"
  have quiet: "fst (snd (onmessage ?m 0 (idle_scanner True False))) = None \<and>
      outputTranscription ?m = Some ''FUZZY spots''"
    by (simp add: onmessage_def skip_def handle_transcription_def Let_def)
  have inc: "string_includes (toLowerCase ''FUZZY spots'') ''fuzzy''"
    by (simp add: toLowerCase_def lower_char_def char_of_def bit_Suc_0_iff)
  then have "\<exists>k \<in> set hazard_keywords. string_includes (toLowerCase ''FUZZY spots'') k"
    by (simp add: hazard_keywords_def)
  with hazard_alert [where msg = ?m and st = "idle_scanner True False" and currentTime = 0
      and transcript = "''FUZZY spots''", THEN conjunct2, THEN conjunct1, THEN mp, OF quiet]
  have "mouldAlert (snd (snd (onmessage ?m 0 (idle_scanner True False))))"
    by blast
  with quiet inc show ?thesis by blast
qed

section \<open>The frame timer\<close>

lemma ontick_gone:
  assumes "sessionRef st = None \<or> videoRef st = None \<or> \<not> canvasRef st"
  shows "ontick st = ([], None, st\<lparr>frameTimers := frameTimers st - 1\<rparr>)"
  using assms by (auto simp: ontick_def)

lemma ticks_pile_up:
  assumes "sessionRef st \<noteq> None" "videoRef st \<noteq> None" "canvasRef st"
  shows "run (replicate n EvTick) st = ([], st\<lparr>framesInFlight := framesInFlight st + n\<rparr>)"
  using assms
proof (induction n arbitrary: st)
  case 0
  then show ?case by simp
next
  case (Suc n)
  let ?st = "st\<lparr>framesInFlight := framesInFlight st + 1\<rparr>"
  from Suc.prems have tick: "ontick st = ([], None, ?st)"
    by (auto simp: ontick_def)
  from Suc.prems have "run (replicate n EvTick) ?st =
      ([], ?st\<lparr>framesInFlight := framesInFlight ?st + n\<rparr>)"
    by (intro Suc.IH) simp_all
  with tick show ?case by simp
qed

text \<open>
  C8, as stated, fails: with one frame still being encoded, a tick draws a second frame,
  so two frames are in flight and the state has changed.
\<close>

theorem frame_tick_counterexample:
  "framesInFlight one_frame_pending = 1 \<and>
   framesInFlight (snd (snd (ontick one_frame_pending))) = 2 \<and>
   snd (snd (ontick one_frame_pending)) \<noteq> one_frame_pending"
proof -
  have p: "one_frame_pending = scanning_scanner\<lparr>framesInFlight := 1\<rparr>"
    by (simp add: one_frame_pending_def ontick_def scanning_scanner_eq)
  have "framesInFlight one_frame_pending = 1"
    by (simp add: p)
  moreover have "framesInFlight (snd (snd (ontick one_frame_pending))) = 2"
    by (simp add: p ontick_def scanning_scanner_eq)
  ultimately show ?thesis by force
qed

text \<open>
  C8, amended: a tick that finds the session, the video or the canvas gone draws nothing
  and cancels its interval; a tick that finds all three draws a frame whatever is still in
  flight, so \<open>n\<close> ticks in a row leave \<open>n\<close> more frames in flight and send nothing;
  a frame is sent when its own encoding is over, if it produced a blob and the session is
  still set.
\<close>

theorem frame_tick:
  "(sessionRef st = None \<or> videoRef st = None \<or> \<not> canvasRef st \<longrightarrow>
      ontick st = ([], None, st\<lparr>frameTimers := frameTimers st - 1\<rparr>)) \<and>
   (sessionRef st \<noteq> None \<and> videoRef st \<noteq> None \<and> canvasRef st \<longrightarrow>
      run (replicate n EvTick) st = ([], st\<lparr>framesInFlight := framesInFlight st + n\<rparr>)) \<and>
   onframe_encoded hasBlob st =
     ((if hasBlob \<and> sessionRef st \<noteq> None then [SendFrame] else []), None,
      st\<lparr>framesInFlight := framesInFlight st - 1\<rparr>)"
  using ontick_gone [of st] ticks_pile_up [of st n] by (simp add: onframe_encoded_def)

text \<open>
  Three ticks in the session in full swing put three frames in flight; a tick in the view
  not yet started changes nothing (its interval count is already zero).
\<close>

theorem frame_tick_witness:
  "sessionRef scanning_scanner \<noteq> None \<and> videoRef scanning_scanner \<noteq> None \<and>
   canvasRef scanning_scanner \<and>
   framesInFlight scanning_scanner = 0 \<and>
   framesInFlight (snd (run (replicate 3 EvTick) scanning_scanner)) = 3 \<and>
   sessionRef (idle_scanner True False) = None \<and>
   ontick (idle_scanner True False) = ([], None, idle_scanner True False)"
proof -
  have live: "sessionRef scanning_scanner \<noteq> None \<and> videoRef scanning_scanner \<noteq> None \<and>
      canvasRef scanning_scanner"
    and zero: "framesInFlight scanning_scanner = 0"
    by (simp_all add: scanning_scanner_eq)
  have gone: "sessionRef (idle_scanner True False) = None \<or>
      videoRef (idle_scanner True False) = None \<or> \<not> canvasRef (idle_scanner True False)"
    by (simp add: idle_scanner_def)
  from frame_tick [where st = scanning_scanner and n = 3, THEN conjunct2, THEN conjunct1,
      THEN mp, OF live]
  have "framesInFlight (snd (run (replicate 3 EvTick) scanning_scanner)) = 3"
    by (simp add: zero del: run.simps replicate.simps)
  moreover from frame_tick [where st = "idle_scanner True False", THEN conjunct1, THEN mp, OF gone]
  have "ontick (idle_scanner True False) = ([], None, idle_scanner True False)"
    by (simp add: idle_scanner_def)
  ultimately show ?thesis
    using live zero by (simp add: idle_scanner_def)
qed

section \<open>Microphone blocks\<close>

text \<open>
  A block captured while the session promise is pending is sent when the promise
  resolves, after the blocks that waited before it; a block captured after that is sent
  at once while the session is set, and dropped once it is cleared.
\<close>

lemma audio_block_waits:
  assumes "\<not> sessionPromiseResolved st"
  shows "fst (run [EvAudioProcess inputData, EvSession s] st) =
           map SendAudio (audioWaiting st) @ [SendAudio (onaudioprocess_payload inputData)]"
  using assms by (simp add: onaudioprocess_def start_session_def Let_def)

lemma audio_block_sent:
  assumes "sessionPromiseResolved st"
  shows "fst (run [EvAudioProcess inputData] st) =
           (if sessionRef st \<noteq> None then [SendAudio (onaudioprocess_payload inputData)] else [])"
  using assms by (simp add: onaudioprocess_def Let_def)

section \<open>Retries after a denied permission\<close>


















end
